theory Spec2Isabelle
  imports Main "HOL-Library.Product_Lexorder"
begin

section \<open>Conventions\<close>

text \<open>
  Absolute instants are epoch milliseconds, an \<^typ>\<open>int\<close>: the value of
  \<^verbatim>\<open>Date.getTime()\<close> and of Luxon's \<^verbatim>\<open>toMillis()\<close>. A JavaScript \<^verbatim>\<open>Date\<close>, a Luxon
  \<^verbatim>\<open>DateTime\<close> in zone UTC and a canonical ISO-8601 string produced by
  \<^verbatim>\<open>toISOString()\<close> are all represented by the instant they denote. A value that does
  not parse (where \<^verbatim>\<open>toMs\<close> yields \<^verbatim>\<open>NaN\<close>, or \<^verbatim>\<open>isValid\<close> is false) is \<^term>\<open>None\<close>.
  A thrown \<^verbatim>\<open>Error(msg)\<close> is the value \<open>Error msg\<close>.
\<close>

datatype error = Error string

definition MINUTE_MS :: int where
  "MINUTE_MS = 60000"

section \<open>Interval algebra\<close>

record Interval =
  startMs :: int
  endMs :: int

text \<open>The half-open set of instants \<open>[startMs, endMs)\<close> of an interval, and of a list.\<close>

definition span :: "Interval \<Rightarrow> int set" where
  "span i = {startMs i ..< endMs i}"

definition cover :: "Interval list \<Rightarrow> int set" where
  "cover xs = (\<Union>i \<in> set xs. span i)"

text \<open>
  \<^verbatim>\<open>assertValid\<close>: the first throw (non-finite numbers) cannot happen on an \<^typ>\<open>int\<close>;
  the second is kept.
\<close>

definition assertValid :: "Interval \<Rightarrow> error + unit" where
  "assertValid i =
     (if endMs i \<le> startMs i then Inl (Error ''Invalid interval (end <= start)'')
      else Inr ())"

text \<open>
  The loop of \<^verbatim>\<open>mergeIntervals\<close> (the \<^verbatim>\<open>Interval\<close> version): \<open>out\<close> is the array
  built so far, \<open>cur\<close> the interval being grown, the list the rest of \<^verbatim>\<open>cleaned\<close>.
\<close>

fun merge_loop :: "Interval list \<Rightarrow> Interval \<Rightarrow> Interval list \<Rightarrow> error + Interval list" where
  "merge_loop out cur [] = Inr (out @ [cur])"
| "merge_loop out cur (nxt # rest) =
     (case assertValid nxt of
        Inl e \<Rightarrow> Inl e
      | Inr _ \<Rightarrow>
          if startMs nxt \<le> endMs cur
          then merge_loop out \<lparr>startMs = startMs cur, endMs = max (endMs cur) (endMs nxt)\<rparr> rest
          else merge_loop (out @ [cur]) nxt rest)"

definition mergeIntervals :: "Interval list \<Rightarrow> error + Interval list" where
  "mergeIntervals intervals =
     (let cleaned = sort_key (\<lambda>i. (startMs i, endMs i))
                      (map (\<lambda>i. \<lparr>startMs = startMs i, endMs = endMs i\<rparr>)
                        (filter (\<lambda>i. endMs i > startMs i) intervals))
      in case cleaned of
           [] \<Rightarrow> Inr []
         | cur # rest \<Rightarrow>
             (case assertValid cur of Inl e \<Rightarrow> Inl e | Inr _ \<Rightarrow> merge_loop [] cur rest))"

text \<open>
  The loop shared by the row version of \<^verbatim>\<open>mergeIntervals\<close> and by the copy in the
  free-slots route: the last element of \<open>out\<close> is updated in place. It is only entered
  with \<open>out\<close> non-empty.
\<close>

fun merge_in_place :: "Interval list \<Rightarrow> Interval list \<Rightarrow> Interval list" where
  "merge_in_place out [] = out"
| "merge_in_place out (cur # rest) =
     (let prev = last out in
      if startMs cur \<le> endMs prev
      then merge_in_place (butlast out @ [prev\<lparr>endMs := max (endMs prev) (endMs cur)\<rparr>]) rest
      else merge_in_place (out @ [cur]) rest)"

text \<open>
  \<^verbatim>\<open>IntervalRow\<close> / \<^verbatim>\<open>MergedInterval\<close> of \<^verbatim>\<open>lib/scheduling/mergeIntervals.ts\<close>: both
  bounds are a \<^verbatim>\<open>Date\<close> or a string, kept as what \<^verbatim>\<open>toMs\<close> makes of them.
\<close>

record IntervalRow =
  row_startUtc :: "int option"
  row_endUtc :: "int option"

definition toMs :: "int option \<Rightarrow> int option" where
  "toMs v = v"

definition toIso :: "int \<Rightarrow> int option" where
  "toIso ms = Some ms"

definition row_item :: "IntervalRow \<Rightarrow> Interval option" where
  "row_item r =
     (case (toMs (row_startUtc r), toMs (row_endUtc r)) of
        (Some s, Some e) \<Rightarrow> if e > s then Some \<lparr>startMs = s, endMs = e\<rparr> else None
      | _ \<Rightarrow> None)"

definition row_of :: "Interval \<Rightarrow> IntervalRow" where
  "row_of x = \<lparr>row_startUtc = toIso (startMs x), row_endUtc = toIso (endMs x)\<rparr>"

definition mergeIntervalRows :: "IntervalRow list \<Rightarrow> IntervalRow list" where
  "mergeIntervalRows rows =
     (let items = sort_key startMs (List.map_filter row_item rows)
      in case items of
           [] \<Rightarrow> []
         | first # rest \<Rightarrow> map row_of (merge_in_place [first] rest))"

definition row_cover :: "IntervalRow list \<Rightarrow> int set" where
  "row_cover rows = cover (List.map_filter row_item rows)"

text \<open>\<^verbatim>\<open>subtractIntervals\<close>: \<open>j\<close> is kept as the suffix of \<open>b\<close> from index \<open>j\<close> on.\<close>

fun cut_seg :: "Interval list \<Rightarrow> int \<Rightarrow> int \<Rightarrow> Interval list \<Rightarrow> Interval list" where
  "cut_seg out curStart curEnd [] =
     (if curStart < curEnd then out @ [\<lparr>startMs = curStart, endMs = curEnd\<rparr>] else out)"
| "cut_seg out curStart curEnd (c # rest) =
     (if startMs c < curEnd then
        (let out1 = (if startMs c > curStart
                     then out @ [\<lparr>startMs = curStart, endMs = min (startMs c) curEnd\<rparr>]
                     else out);
             curStart1 = max curStart (endMs c)
         in if curStart1 \<ge> curEnd then out1
            else cut_seg out1 curStart1 curEnd rest)
      else (if curStart < curEnd then out @ [\<lparr>startMs = curStart, endMs = curEnd\<rparr>] else out))"

fun subtract_loop :: "Interval list \<Rightarrow> Interval list \<Rightarrow> Interval list \<Rightarrow> Interval list" where
  "subtract_loop out bj [] = out"
| "subtract_loop out bj (seg # segs) =
     (let bj1 = dropWhile (\<lambda>c. endMs c \<le> startMs seg) bj
      in subtract_loop (cut_seg out (startMs seg) (endMs seg) bj1) bj1 segs)"

definition subtractIntervals :: "Interval list \<Rightarrow> Interval list \<Rightarrow> error + Interval list" where
  "subtractIntervals base cuts =
     (case mergeIntervals base of
        Inl e \<Rightarrow> Inl e
      | Inr a \<Rightarrow>
          (case mergeIntervals cuts of
             Inl e \<Rightarrow> Inl e
           | Inr b \<Rightarrow>
               if a = [] then Inr []
               else if b = [] then Inr a
               else Inr (subtract_loop [] b a)))"

section \<open>Persistent state\<close>

text \<open>
  The tables of \<^verbatim>\<open>lib/db/schema.ts\<close> that the scheduling core touches. A table is the
  list of its rows in insertion order; a \<^verbatim>\<open>serial\<close> primary key draws from a sequence
  kept beside the tables. The schema declares no unique index on
  \<^verbatim>\<open>teacher_availability\<close> besides the primary key.
\<close>

record AvailabilityRow =
  av_id :: int
  av_teacherId :: int
  av_startUtc :: int
  av_endUtc :: int
  av_source :: string
  av_createdAt :: int

record Booking =
  bk_id :: int
  bk_teacherId :: int
  bk_studentId :: int
  bk_startUtc :: int
  bk_endUtc :: int
  bk_durationMinutes :: int
  bk_priceCents :: int
  bk_currency :: string
  bk_status :: string
  bk_stripeCheckoutSessionId :: "string option"
  bk_stripePaymentIntentId :: "string option"
  bk_updatedAt :: int

record LessonOffer =
  lo_teacherId :: int
  lo_durationMinutes :: int
  lo_priceCents :: int
  lo_currency :: string
  lo_isActive :: int

record AvailabilityOverride =
  ov_id :: int
  ov_teacherId :: int
  ov_kind :: string
  ov_startUtc :: int
  ov_endUtc :: int

record Db =
  teacherAvailability :: "AvailabilityRow list"
  bookings :: "Booking list"
  lessonOffers :: "LessonOffer list"
  availabilityOverrides :: "AvailabilityOverride list"
  teacherAvailability_seq :: int
  bookings_seq :: int
  availabilityOverrides_seq :: int

text \<open>
  What \<^verbatim>\<open>requireUser()\<close> returns is \<^term>\<open>None\<close> or a user; \<^verbatim>\<open>!user?.id\<close> also holds of
  a user whose id is 0.
\<close>

record User =
  user_id :: int
  user_email :: string

text \<open>
  A timestamp field of a request: absent (or empty, which \<^verbatim>\<open>!v\<close> treats alike), present
  but not a valid ISO-8601 time, or the instant it denotes.
\<close>

datatype IsoField = Missing | Invalid | At int

definition GRID_MINUTES :: int where
  "GRID_MINUTES = 30"

section \<open>Free-slot listing (\<^verbatim>\<open>free-slots/route.ts\<close>)\<close>

record Slot =
  slot_startUtc :: int
  slot_endUtc :: int
  slot_durationMinutes :: int












section \<open>Transactions\<close>

text \<open>
  \<^verbatim>\<open>db.transaction(async (tx) => ...)\<close>: the body runs on the state and leaves the state
  it reached together with its result; when the body throws, the tables are restored to
  what they were before it started. Values drawn from a sequence are not given back.
\<close>

definition rollback :: "Db \<Rightarrow> Db \<Rightarrow> Db" where
  "rollback before reached =
     before\<lparr>teacherAvailability_seq := teacherAvailability_seq reached,
            bookings_seq := bookings_seq reached,
            availabilityOverrides_seq := availabilityOverrides_seq reached\<rparr>"

definition transaction :: "(Db \<Rightarrow> (error + 'a) \<times> Db) \<Rightarrow> Db \<Rightarrow> (error + 'a) \<times> Db" where
  "transaction body db =
     (case body db of
        (Inl e, reached) \<Rightarrow> (Inl e, rollback db reached)
      | (Inr v, reached) \<Rightarrow> (Inr v, reached))"

text \<open>
  \<^verbatim>\<open>tx.insert(teacherAvailability).values(rows)\<close>: the rows are appended in order, each
  taking the next value of the id sequence.
\<close>

record NewAvailability =
  na_teacherId :: int
  na_startUtc :: int
  na_endUtc :: int
  na_source :: string
  na_createdAt :: int

fun insert_availability :: "NewAvailability list \<Rightarrow> Db \<Rightarrow> Db" where
  "insert_availability [] db = db"
| "insert_availability (v # vs) db =
     insert_availability vs
       (db\<lparr>teacherAvailability := teacherAvailability db @
               [\<lparr>av_id = teacherAvailability_seq db, av_teacherId = na_teacherId v,
                 av_startUtc = na_startUtc v, av_endUtc = na_endUtc v,
                 av_source = na_source v, av_createdAt = na_createdAt v\<rparr>],
            teacherAvailability_seq := teacherAvailability_seq db + 1\<rparr>)"

section \<open>Checkout (\<^verbatim>\<open>POST /api/bookings/checkout\<close>)\<close>

text \<open>
  The request body after \<^verbatim>\<open>Number(...)\<close> and \<^verbatim>\<open>String(... || "")\<close>: a number field is
  \<^term>\<open>None\<close> when it is not finite. The payment provider is outside the program: its
  answer to \<^verbatim>\<open>stripe.checkout.sessions.create\<close> is an argument, as are the
  \<^verbatim>\<open>STRIPE_DISABLED\<close> flag and the clock.
\<close>

record CheckoutBody =
  cb_teacherId :: "int option"
  cb_startUtc :: IsoField
  cb_durationMinutes :: "int option"

datatype CheckoutUrl = SuccessPage int | StripeCheckout string

datatype StripeResult = StripeRejects string | StripeSession string string

datatype CheckoutResponse = CheckoutError nat string | CheckoutOk CheckoutUrl

definition requiredStarts :: "int \<Rightarrow> int \<Rightarrow> int list" where
  "requiredStarts start durationMinutes =
     [start] @ (if durationMinutes = 60 then [start + GRID_MINUTES * MINUTE_MS] else [])"

definition matchingRows :: "Db \<Rightarrow> int \<Rightarrow> int list \<Rightarrow> AvailabilityRow list" where
  "matchingRows db teacherId starts =
     filter (\<lambda>r. av_teacherId r = teacherId \<and> av_startUtc r \<in> set starts) (teacherAvailability db)"

definition checkout_tx ::
  "User \<Rightarrow> int \<Rightarrow> int \<Rightarrow> int \<Rightarrow> bool \<Rightarrow> StripeResult \<Rightarrow> int \<Rightarrow> Db
   \<Rightarrow> (error + CheckoutUrl) \<times> Db" where
  "checkout_tx user teacherId start durationMinutes stripeDisabled stripe now db =
     (case find (\<lambda>x. lo_teacherId x = teacherId \<and> lo_durationMinutes x = durationMinutes
                      \<and> lo_isActive x = 1) (lessonOffers db) of
        None \<Rightarrow> (Inl (Error ''No price for this duration''), db)
      | Some offer \<Rightarrow>
          (let required = requiredStarts start durationMinutes;
               rows = matchingRows db teacherId required
           in if length rows \<noteq> length required then (Inl (Error ''Slot not available''), db)
              else if list_ex (\<lambda>r. av_endUtc r - av_startUtc r \<noteq> GRID_MINUTES * MINUTE_MS) rows
              then (Inl (Error ''Availability row is not 30-min atomic''), db)
              else
                (let booking =
                       \<lparr>bk_id = bookings_seq db, bk_teacherId = teacherId,
                        bk_studentId = user_id user, bk_startUtc = start,
                        bk_endUtc = start + durationMinutes * MINUTE_MS,
                        bk_durationMinutes = durationMinutes,
                        bk_priceCents = lo_priceCents offer, bk_currency = lo_currency offer,
                        bk_status = ''pending'', bk_stripeCheckoutSessionId = None,
                        bk_stripePaymentIntentId = None, bk_updatedAt = now\<rparr>;
                     db1 = db\<lparr>bookings := bookings db @ [booking],
                              bookings_seq := bookings_seq db + 1\<rparr>;
                     idsToDelete = map av_id rows;
                     db2 = db1\<lparr>teacherAvailability :=
                                 filter (\<lambda>r. av_id r \<notin> set idsToDelete) (teacherAvailability db1)\<rparr>
                 in if stripeDisabled then
                      (Inr (SuccessPage (bk_id booking)),
                       db2\<lparr>bookings :=
                             map (\<lambda>b. if bk_id b = bk_id booking
                                       then b\<lparr>bk_status := ''paid'', bk_updatedAt := now\<rparr> else b)
                               (bookings db2)\<rparr>)
                    else
                      (case stripe of
                         StripeRejects msg \<Rightarrow> (Inl (Error msg), db2)
                       | StripeSession sid url \<Rightarrow>
                           (Inr (StripeCheckout url),
                            db2\<lparr>bookings :=
                                  map (\<lambda>b. if bk_id b = bk_id booking
                                            then b\<lparr>bk_stripeCheckoutSessionId := Some sid,
                                                   bk_updatedAt := now\<rparr>
                                            else b)
                                    (bookings db2)\<rparr>)))))"

definition checkout_POST ::
  "User option \<Rightarrow> CheckoutBody \<Rightarrow> bool \<Rightarrow> StripeResult \<Rightarrow> int \<Rightarrow> Db
   \<Rightarrow> CheckoutResponse \<times> Db" where
  "checkout_POST userOpt body stripeDisabled stripe now db =
     (case userOpt of
        None \<Rightarrow> (CheckoutError 401 ''Unauthorized'', db)
      | Some user \<Rightarrow>
          if user_id user = 0 then (CheckoutError 401 ''Unauthorized'', db)
          else
          (case (cb_teacherId body, cb_durationMinutes body) of
             (Some teacherId, Some durationMinutes) \<Rightarrow>
               if cb_startUtc body = Missing
               then (CheckoutError 400 ''Missing/invalid fields'', db)
               else if durationMinutes \<notin> set [30, 60]
               then (CheckoutError 400 ''Only 30/60 supported right now (45 requires 15-min grid).'', db)
               else
                 (case cb_startUtc body of
                    At start \<Rightarrow>
                      (case transaction
                              (checkout_tx user teacherId start durationMinutes stripeDisabled stripe now)
                              db of
                         (Inl (Error msg), db') \<Rightarrow>
                           (CheckoutError 400 (if msg = [] then ''Checkout failed'' else msg), db')
                       | (Inr checkoutUrl, db') \<Rightarrow> (CheckoutOk checkoutUrl, db'))
                  | _ \<Rightarrow> (CheckoutError 400 ''Invalid startUtc'', db))
           | _ \<Rightarrow> (CheckoutError 400 ''Missing/invalid fields'', db)))"

section \<open>Cancellation (\<^verbatim>\<open>POST /api/bookings/cancel\<close>)\<close>

text \<open>
  \<^verbatim>\<open>buildAtomicStarts\<close>: \<^verbatim>\<open>diff\<close> is the length in minutes, a fraction when the length
  in milliseconds is no multiple of a minute; \<^verbatim>\<open>diff % 30 !== 0\<close> holds exactly when the
  length is no multiple of 30 minutes.
\<close>

definition buildAtomicStarts :: "int \<Rightarrow> int \<Rightarrow> int list" where
  "buildAtomicStarts startUtc endUtc =
     (let diffMs = endUtc - startUtc in
      if diffMs \<le> 0 then []
      else if diffMs mod (GRID_MINUTES * MINUTE_MS) \<noteq> 0 then []
      else (let blocks = diffMs div (GRID_MINUTES * MINUTE_MS)
            in map (\<lambda>i. startUtc + GRID_MINUTES * int i * MINUTE_MS) [0 ..< nat blocks]))"

datatype CancelResult = CancelNotFound | CannotCancel string | CancelRestored nat

datatype CancelResponse = CancelError nat string | CancelOk nat

definition cancel_tx :: "User \<Rightarrow> int \<Rightarrow> int \<Rightarrow> Db \<Rightarrow> (error + CancelResult) \<times> Db" where
  "cancel_tx user bookingId now db =
     (case find (\<lambda>b. bk_id b = bookingId \<and> bk_studentId b = user_id user) (bookings db) of
        None \<Rightarrow> (Inr CancelNotFound, db)
      | Some b \<Rightarrow>
          if bk_status b = ''paid'' \<or> bk_status b = ''refunded''
          then (Inr (CannotCancel (bk_status b)), db)
          else
            (let db1 = (if bk_status b = ''canceled'' then db
                        else db\<lparr>bookings :=
                                  map (\<lambda>x. if bk_id x = bk_id b
                                            then x\<lparr>bk_status := ''canceled'', bk_updatedAt := now\<rparr>
                                            else x)
                                    (bookings db)\<rparr>);
                 required = buildAtomicStarts (bk_startUtc b) (bk_endUtc b)
             in if required = [] then (Inr (CancelRestored 0), db1)
                else
                  (let existing = map av_startUtc (matchingRows db1 (bk_teacherId b) required);
                       existingSet = set existing;
                       rowsToInsert =
                         map (\<lambda>s. \<lparr>na_teacherId = bk_teacherId b, na_startUtc = s,
                                    na_endUtc = s + GRID_MINUTES * MINUTE_MS,
                                    na_source = ''manual'', na_createdAt = now\<rparr>)
                           (filter (\<lambda>d. d \<notin> existingSet) required);
                       db2 = (if rowsToInsert \<noteq> [] then insert_availability rowsToInsert db1
                              else db1)
                   in (Inr (CancelRestored (length rowsToInsert)), db2))))"

definition cancel_POST :: "User option \<Rightarrow> int option \<Rightarrow> int \<Rightarrow> Db \<Rightarrow> CancelResponse \<times> Db" where
  "cancel_POST userOpt bookingIdOpt now db =
     (case userOpt of
        None \<Rightarrow> (CancelError 401 ''Unauthorized'', db)
      | Some user \<Rightarrow>
          if user_id user = 0 then (CancelError 401 ''Unauthorized'', db)
          else
          (case bookingIdOpt of
             None \<Rightarrow> (CancelError 400 ''Missing/invalid bookingId'', db)
           | Some bookingId \<Rightarrow>
               (case transaction (cancel_tx user bookingId now) db of
                  (Inl (Error msg), db') \<Rightarrow>
                    (CancelError 500 (if msg = [] then ''Cancel failed'' else msg), db')
                | (Inr CancelNotFound, db') \<Rightarrow> (CancelError 404 ''Booking not found'', db')
                | (Inr (CannotCancel status), db') \<Rightarrow>
                    (CancelError 400 (''Cannot cancel booking with status '' @ status), db')
                | (Inr (CancelRestored restored), db') \<Rightarrow> (CancelOk restored, db'))))"

section \<open>Payment confirmation (\<^verbatim>\<open>POST /api/stripe/webhook\<close>)\<close>

text \<open>
  The verified event is what \<^verbatim>\<open>stripe.webhooks.constructEvent\<close> returns or throws, an
  argument here. \<^verbatim>\<open>metadata.bookingId\<close> is any string the session was created with;
  the value of \<^verbatim>\<open>Number(bookingId)\<close> is \<open>NaN\<close> or a number, and the conversion is an
  argument too. \<^verbatim>\<open>payment_intent\<close> is \<^term>\<open>None\<close> when it is not a string.
\<close>

record CheckoutSession =
  cs_id :: string
  cs_bookingId :: "string option"
  cs_payment_intent :: "string option"

record StripeEvent =
  ev_type :: string
  ev_session :: CheckoutSession

datatype ConstructEvent = SignatureError string | Event StripeEvent

datatype JsNumber = NaN | Num int

datatype WebhookResponse = WebhookError nat string | WebhookNote string | WebhookReceived

text \<open>
  \<^verbatim>\<open>db.update(bookings).set(...).where(eq(bookings.id, n))\<close>: \<^verbatim>\<open>bookings.id\<close> is a
  32-bit integer column, and the database refuses to compare it with a parameter that
  is no 32-bit integer; the driver then rejects the query's promise.
\<close>

definition update_booking_paid ::
  "JsNumber \<Rightarrow> string \<Rightarrow> string option \<Rightarrow> int \<Rightarrow> Db \<Rightarrow> error + Db" where
  "update_booking_paid n sessionId paymentIntentId now db =
     (case n of
        NaN \<Rightarrow> Inl (Error ''invalid input syntax for type integer: NaN'')
      | Num i \<Rightarrow>
          if i < - 2147483648 \<or> 2147483647 < i
          then Inl (Error ''value is out of range for type integer'')
          else Inr (db\<lparr>bookings :=
                         map (\<lambda>b. if bk_id b = i
                                   then b\<lparr>bk_status := ''paid'',
                                          bk_stripeCheckoutSessionId := Some sessionId,
                                          bk_stripePaymentIntentId := paymentIntentId,
                                          bk_updatedAt := now\<rparr>
                                   else b)
                           (bookings db)\<rparr>))"

definition webhook_POST ::
  "string option \<Rightarrow> string option \<Rightarrow> ConstructEvent \<Rightarrow> (string \<Rightarrow> JsNumber) \<Rightarrow> int \<Rightarrow> Db
   \<Rightarrow> WebhookResponse \<times> Db" where
  "webhook_POST sig secret constructEvent Number now db =
     (if sig = None \<or> sig = Some [] then (WebhookError 400 ''Missing stripe-signature'', db)
      else if secret = None \<or> secret = Some []
      then (WebhookError 500 ''Missing STRIPE_WEBHOOK_SECRET'', db)
      else
        (case constructEvent of
           SignatureError msg \<Rightarrow> (WebhookError 400 (''Webhook Error: '' @ msg), db)
         | Event event \<Rightarrow>
             if ev_type event = ''checkout.session.completed'' then
               (let session = ev_session event in
                case cs_bookingId session of
                  None \<Rightarrow> (WebhookNote ''No bookingId in metadata'', db)
                | Some bookingId \<Rightarrow>
                    if bookingId = [] then (WebhookNote ''No bookingId in metadata'', db)
                    else
                      (case update_booking_paid (Number bookingId) (cs_id session)
                              (cs_payment_intent session) now db of
                         Inl (Error msg) \<Rightarrow>
                           (WebhookError 500 (if msg = [] then ''Webhook handler failed'' else msg), db)
                       | Inr db' \<Rightarrow> (WebhookReceived, db')))
             else (WebhookReceived, db)))"

section \<open>Manual availability (\<^verbatim>\<open>POST /api/teachers/[teacherId]/availability\<close>)\<close>

text \<open>
  \<^verbatim>\<open>roundDownToGrid\<close> on a UTC \<^verbatim>\<open>DateTime\<close>: the minute of the hour is rounded down to
  a multiple of 30, seconds and milliseconds are cleared.
\<close>

definition roundDownToGrid :: "int \<Rightarrow> int" where
  "roundDownToGrid dt =
     (let minute = (dt div MINUTE_MS) mod 60;
          m = minute - minute mod GRID_MINUTES
      in (dt div (60 * MINUTE_MS)) * (60 * MINUTE_MS) + m * MINUTE_MS)"

record GridSlot =
  gs_startUtc :: int
  gs_endUtc :: int

text \<open>\<^verbatim>\<open>while (t.plus({ minutes: GRID_MINUTES }) <= end) { out.push(...); t = ... }\<close>\<close>

function split_loop :: "int \<Rightarrow> int \<Rightarrow> GridSlot list \<Rightarrow> GridSlot list" where
  "split_loop t endT out =
     (if t + GRID_MINUTES * MINUTE_MS \<le> endT
      then split_loop (t + GRID_MINUTES * MINUTE_MS) endT
             (out @ [\<lparr>gs_startUtc = t, gs_endUtc = t + GRID_MINUTES * MINUTE_MS\<rparr>])
      else out)"
  by pat_completeness auto
termination
  by (relation "measure (\<lambda>(t, endT, out). nat (endT - t))")
     (auto simp: GRID_MINUTES_def MINUTE_MS_def)

declare split_loop.simps [simp del]

definition splitIntoGridSlots :: "IsoField \<Rightarrow> IsoField \<Rightarrow> GridSlot list" where
  "splitIntoGridSlots startUtcIso endUtcIso =
     (case (startUtcIso, endUtcIso) of
        (At start, At endT) \<Rightarrow>
          if endT \<le> start then []
          else split_loop (roundDownToGrid start) ((endT div MINUTE_MS) * MINUTE_MS) []
      | _ \<Rightarrow> [])"

text \<open>
  The loop of the transaction: a slot is inserted unless a row with the same teacher,
  start and end is found. The insert leaves \<^verbatim>\<open>source\<close> and \<^verbatim>\<open>created_at\<close> to the column
  defaults, \<^verbatim>\<open>'manual'\<close> and the time of the insert.
\<close>

fun insert_slots :: "int \<Rightarrow> int \<Rightarrow> GridSlot list \<Rightarrow> Db \<Rightarrow> Db" where
  "insert_slots teacherId now [] db = db"
| "insert_slots teacherId now (s # slots) db =
     (let existing = filter (\<lambda>r. av_teacherId r = teacherId \<and> av_startUtc r = gs_startUtc s
                                 \<and> av_endUtc r = gs_endUtc s) (teacherAvailability db)
      in if existing = []
         then insert_slots teacherId now slots
                (insert_availability
                   [\<lparr>na_teacherId = teacherId, na_startUtc = gs_startUtc s,
                     na_endUtc = gs_endUtc s, na_source = ''manual'', na_createdAt = now\<rparr>] db)
         else insert_slots teacherId now slots db)"

datatype AvailabilityResponse = AvailabilityError nat string | AvailabilityOk nat

definition availability_POST ::
  "User option \<Rightarrow> int option \<Rightarrow> IsoField \<Rightarrow> IsoField \<Rightarrow> int \<Rightarrow> Db
   \<Rightarrow> AvailabilityResponse \<times> Db" where
  "availability_POST userOpt teacherIdParam startUtc endUtc now db =
     (case userOpt of
        None \<Rightarrow> (AvailabilityError 401 ''Unauthorized'', db)
      | Some user \<Rightarrow>
          (case teacherIdParam of
             None \<Rightarrow> (AvailabilityError 400 ''Invalid teacherId'', db)
           | Some teacherId \<Rightarrow>
               if user_id user \<noteq> teacherId then (AvailabilityError 403 ''Forbidden'', db)
               else if startUtc = Missing \<or> endUtc = Missing
               then (AvailabilityError 400 ''Missing startUtc/endUtc'', db)
               else
                 (let slots = splitIntoGridSlots startUtc endUtc
                  in if slots = [] then (AvailabilityError 400 ''Empty selection'', db)
                     else (AvailabilityOk (length slots), insert_slots teacherId now slots db))))"

section \<open>Rule expansion (\<^verbatim>\<open>availability-rules/route.ts\<close>)\<close>




section \<open>Auxiliary notions\<close>

text \<open>Well-formed intervals, and the merge loop as a function of the sorted input.\<close>

definition valid :: "Interval \<Rightarrow> bool" where
  "valid i = (startMs i < endMs i)"

fun mrg :: "Interval \<Rightarrow> Interval list \<Rightarrow> Interval list" where
  "mrg cur [] = [cur]"
| "mrg cur (nxt # rest) =
     (if startMs nxt \<le> endMs cur
      then mrg \<lparr>startMs = startMs cur, endMs = max (endMs cur) (endMs nxt)\<rparr> rest
      else cur # mrg nxt rest)"

definition mrg_list :: "Interval list \<Rightarrow> Interval list" where
  "mrg_list xs = (case xs of [] \<Rightarrow> [] | c # r \<Rightarrow> mrg c r)"

definition merged :: "Interval list \<Rightarrow> Interval list" where
  "merged xs =
     mrg_list (sort_key (\<lambda>i. (startMs i, endMs i)) (filter (\<lambda>i. startMs i < endMs i) xs))"

text \<open>The remainders of one base segment, and of all of them, without the accumulator.\<close>

fun pieces :: "int \<Rightarrow> int \<Rightarrow> Interval list \<Rightarrow> Interval list" where
  "pieces cs ce [] = (if cs < ce then [\<lparr>startMs = cs, endMs = ce\<rparr>] else [])"
| "pieces cs ce (c # rest) =
     (if startMs c < ce
      then (if startMs c > cs then [\<lparr>startMs = cs, endMs = min (startMs c) ce\<rparr>] else [])
           @ (if max cs (endMs c) \<ge> ce then [] else pieces (max cs (endMs c)) ce rest)
      else (if cs < ce then [\<lparr>startMs = cs, endMs = ce\<rparr>] else []))"

fun sub_pieces :: "Interval list \<Rightarrow> Interval list \<Rightarrow> Interval list" where
  "sub_pieces bj [] = []"
| "sub_pieces bj (seg # segs) =
     (let bj1 = dropWhile (\<lambda>c. endMs c \<le> startMs seg) bj
      in pieces (startMs seg) (endMs seg) bj1 @ sub_pieces bj1 segs)"

text \<open>The starts among \<open>required\<close> at which the teacher has no availability row.\<close>

definition missingStarts :: "Db \<Rightarrow> int \<Rightarrow> int list \<Rightarrow> int list" where
  "missingStarts db teacherId required =
     filter (\<lambda>s. \<not> list_ex (\<lambda>r. av_teacherId r = teacherId \<and> av_startUtc r = s)
                      (teacherAvailability db)) required"

text \<open>What the cancellation writes into a booking.\<close>

definition mark_canceled :: "int \<Rightarrow> int \<Rightarrow> Booking \<Rightarrow> Booking" where
  "mark_canceled bookingId now x =
     (if bk_id x = bookingId then x\<lparr>bk_status := ''canceled'', bk_updatedAt := now\<rparr> else x)"

text \<open>The \<open>n\<close> consecutive 30-minute slots from \<open>t\<close> on.\<close>

definition grid_slots :: "int \<Rightarrow> nat \<Rightarrow> GridSlot list" where
  "grid_slots t n =
     map (\<lambda>i. \<lparr>gs_startUtc = t + int i * 1800000, gs_endUtc = t + int i * 1800000 + 1800000\<rparr>)
       [0 ..< n]"

text \<open>
  What identifies an availability row for the duplicate check of the manual entry, and
  the uniqueness invariant of the atomic blocks: among the rows that are exactly 30
  minutes long, no two of the same teacher start at the same instant.
\<close>

definition av_triple :: "AvailabilityRow \<Rightarrow> int \<times> int \<times> int" where
  "av_triple r = (av_teacherId r, av_startUtc r, av_endUtc r)"

definition atomic_row :: "AvailabilityRow \<Rightarrow> bool" where
  "atomic_row r = (av_endUtc r - av_startUtc r = 1800000)"

definition atomic_starts_unique :: "Db \<Rightarrow> bool" where
  "atomic_starts_unique db =
     distinct (map (\<lambda>r. (av_teacherId r, av_startUtc r))
                 (filter atomic_row (teacherAvailability db)))"


section \<open>Example states\<close>

text \<open>A teacher with one atomic block at the epoch and no lesson offer.\<close>

definition db_one_block :: Db where
  "db_one_block =
     \<lparr>teacherAvailability =
        [\<lparr>av_id = 1, av_teacherId = 7, av_startUtc = 0, av_endUtc = 1800000,
          av_source = ''manual'', av_createdAt = 0\<rparr>],
      bookings = [], lessonOffers = [], availabilityOverrides = [],
      teacherAvailability_seq = 2, bookings_seq = 1, availabilityOverrides_seq = 1\<rparr>"

text \<open>
  A teacher who offers 60-minute lessons and has the block at 04:00 of the first day, but
  not the one at 04:30.
\<close>

definition db_first_block_only :: Db where
  "db_first_block_only =
     \<lparr>teacherAvailability =
        [\<lparr>av_id = 1, av_teacherId = 7, av_startUtc = 14400000, av_endUtc = 16200000,
          av_source = ''manual'', av_createdAt = 0\<rparr>],
      bookings = [],
      lessonOffers =
        [\<lparr>lo_teacherId = 7, lo_durationMinutes = 60, lo_priceCents = 6000,
          lo_currency = ''EUR'', lo_isActive = 1\<rparr>],
      availabilityOverrides = [],
      teacherAvailability_seq = 2, bookings_seq = 1, availabilityOverrides_seq = 1\<rparr>"

text \<open>
  A pending 60-minute booking at 12:00 of the first day whose blocks the checkout has
  consumed, and the state after its cancellation at time 5.
\<close>

definition db_pending_booking :: Db where
  "db_pending_booking =
     \<lparr>teacherAvailability = [],
      bookings =
        [\<lparr>bk_id = 1, bk_teacherId = 7, bk_studentId = 9, bk_startUtc = 43200000,
          bk_endUtc = 46800000, bk_durationMinutes = 60, bk_priceCents = 6000,
          bk_currency = ''EUR'', bk_status = ''pending'', bk_stripeCheckoutSessionId = None,
          bk_stripePaymentIntentId = None, bk_updatedAt = 0\<rparr>],
      lessonOffers = [], availabilityOverrides = [],
      teacherAvailability_seq = 1, bookings_seq = 2, availabilityOverrides_seq = 1\<rparr>"

definition db_canceled_booking :: Db where
  "db_canceled_booking =
     \<lparr>teacherAvailability =
        [\<lparr>av_id = 1, av_teacherId = 7, av_startUtc = 43200000, av_endUtc = 45000000,
          av_source = ''manual'', av_createdAt = 5\<rparr>,
         \<lparr>av_id = 2, av_teacherId = 7, av_startUtc = 45000000, av_endUtc = 46800000,
          av_source = ''manual'', av_createdAt = 5\<rparr>],
      bookings =
        [\<lparr>bk_id = 1, bk_teacherId = 7, bk_studentId = 9, bk_startUtc = 43200000,
          bk_endUtc = 46800000, bk_durationMinutes = 60, bk_priceCents = 6000,
          bk_currency = ''EUR'', bk_status = ''canceled'', bk_stripeCheckoutSessionId = None,
          bk_stripePaymentIntentId = None, bk_updatedAt = 5\<rparr>],
      lessonOffers = [], availabilityOverrides = [],
      teacherAvailability_seq = 3, bookings_seq = 2, availabilityOverrides_seq = 1\<rparr>"

text \<open>The first example state after its teacher has added the range 00:00:00.100 to 01:00.\<close>

definition db_two_blocks :: Db where
  "db_two_blocks =
     \<lparr>teacherAvailability =
        [\<lparr>av_id = 1, av_teacherId = 7, av_startUtc = 0, av_endUtc = 1800000,
          av_source = ''manual'', av_createdAt = 0\<rparr>,
         \<lparr>av_id = 2, av_teacherId = 7, av_startUtc = 1800000, av_endUtc = 3600000,
          av_source = ''manual'', av_createdAt = 5\<rparr>],
      bookings = [], lessonOffers = [], availabilityOverrides = [],
      teacherAvailability_seq = 3, bookings_seq = 1, availabilityOverrides_seq = 1\<rparr>"

text \<open>A table whose only row is one hour long.\<close>

definition db_hour_row :: Db where
  "db_hour_row =
     \<lparr>teacherAvailability =
        [\<lparr>av_id = 1, av_teacherId = 7, av_startUtc = 0, av_endUtc = 3600000,
          av_source = ''manual'', av_createdAt = 0\<rparr>],
      bookings = [], lessonOffers = [], availabilityOverrides = [],
      teacherAvailability_seq = 2, bookings_seq = 1, availabilityOverrides_seq = 1\<rparr>"




section \<open>Properties of the interval algebra\<close>

lemma merge_loop_eq:
  "\<forall>x \<in> set rest. valid x \<Longrightarrow> merge_loop out cur rest = Inr (out @ mrg cur rest)"
  by (induction rest arbitrary: out cur) (auto simp: assertValid_def valid_def)

lemma merge_in_place_eq:
  "merge_in_place (out @ [c]) rest = out @ mrg c rest"
proof (induction rest arbitrary: out c)
  case Nil
  then show ?case by simp
next
  case (Cons nxt rest)
  have upd: "c\<lparr>endMs := max (endMs c) (endMs nxt)\<rparr>
               = \<lparr>startMs = startMs c, endMs = max (endMs c) (endMs nxt)\<rparr>"
    by (cases c) simp
  show ?case
  proof (cases "startMs nxt \<le> endMs c")
    case True
    then show ?thesis using Cons.IH [of out] by (simp add: upd)
  next
    case False
    then show ?thesis using Cons.IH [of "out @ [c]" nxt] by simp
  qed
qed

lemma cover_Nil [simp]: "cover [] = {}"
  by (simp add: cover_def)

lemma cover_Cons [simp]: "cover (x # xs) = span x \<union> cover xs"
  by (simp add: cover_def)

lemma cover_append [simp]: "cover (xs @ ys) = cover xs \<union> cover ys"
  by (auto simp: cover_def)

lemma mrg_starts:
  "sorted (map startMs (cur # rest)) \<Longrightarrow> x \<in> set (mrg cur rest) \<Longrightarrow> startMs cur \<le> startMs x"
proof (induction rest arbitrary: cur)
  case Nil
  then show ?case by simp
next
  case (Cons nxt rest)
  show ?case
  proof (cases "startMs nxt \<le> endMs cur")
    case True
    let ?c = "\<lparr>startMs = startMs cur, endMs = max (endMs cur) (endMs nxt)\<rparr>"
    from Cons.prems(1) have "sorted (map startMs (?c # rest))" by auto
    moreover from True Cons.prems(2) have "x \<in> set (mrg ?c rest)" by simp
    ultimately have "startMs ?c \<le> startMs x" by (rule Cons.IH)
    then show ?thesis by simp
  next
    case False
    with Cons.prems(2) have "x = cur \<or> x \<in> set (mrg nxt rest)" by simp
    then show ?thesis
    proof
      assume "x = cur" then show ?thesis by simp
    next
      assume "x \<in> set (mrg nxt rest)"
      moreover from Cons.prems(1) have "sorted (map startMs (nxt # rest))" by simp
      ultimately have "startMs nxt \<le> startMs x" by (rule Cons.IH [rotated])
      with Cons.prems(1) show ?thesis by simp
    qed
  qed
qed

lemma mrg_valid:
  "valid cur \<Longrightarrow> \<forall>x \<in> set rest. valid x \<Longrightarrow> \<forall>x \<in> set (mrg cur rest). valid x"
proof (induction rest arbitrary: cur)
  case Nil
  then show ?case by simp
next
  case (Cons nxt rest)
  let ?c = "\<lparr>startMs = startMs cur, endMs = max (endMs cur) (endMs nxt)\<rparr>"
  from Cons.prems(1) have vc: "valid ?c" by (simp add: valid_def)
  from Cons.prems(2) have vr: "\<forall>x \<in> set rest. valid x" and vn: "valid nxt" by simp_all
  show ?case
  proof (cases "startMs nxt \<le> endMs cur")
    case True
    then show ?thesis using Cons.IH [OF vc vr] by simp
  next
    case False
    then show ?thesis using Cons.IH [OF vn vr] Cons.prems(1) by simp
  qed
qed

lemma mrg_cover:
  "sorted (map startMs (cur # rest)) \<Longrightarrow> cover (mrg cur rest) = cover (cur # rest)"
proof (induction rest arbitrary: cur)
  case Nil
  then show ?case by simp
next
  case (Cons nxt rest)
  show ?case
  proof (cases "startMs nxt \<le> endMs cur")
    case True
    let ?c = "\<lparr>startMs = startMs cur, endMs = max (endMs cur) (endMs nxt)\<rparr>"
    from Cons.prems have "sorted (map startMs (?c # rest))" by auto
    then have "cover (mrg ?c rest) = cover (?c # rest)" by (rule Cons.IH)
    moreover from Cons.prems True have "span ?c = span cur \<union> span nxt"
      by (auto simp: span_def)
    ultimately show ?thesis using True by (simp add: Un_assoc)
  next
    case False
    from Cons.prems have "sorted (map startMs (nxt # rest))" by simp
    then have "cover (mrg nxt rest) = cover (nxt # rest)" by (rule Cons.IH)
    then show ?thesis using False by simp
  qed
qed

lemma mrg_chain:
  "sorted (map startMs (cur # rest)) \<Longrightarrow>
   sorted_wrt (\<lambda>a b. endMs a < startMs b) (mrg cur rest)"
proof (induction rest arbitrary: cur)
  case Nil
  then show ?case by simp
next
  case (Cons nxt rest)
  show ?case
  proof (cases "startMs nxt \<le> endMs cur")
    case True
    let ?c = "\<lparr>startMs = startMs cur, endMs = max (endMs cur) (endMs nxt)\<rparr>"
    from Cons.prems have "sorted (map startMs (?c # rest))" by auto
    then have "sorted_wrt (\<lambda>a b. endMs a < startMs b) (mrg ?c rest)" by (rule Cons.IH)
    then show ?thesis using True by simp
  next
    case False
    from Cons.prems have s: "sorted (map startMs (nxt # rest))" by simp
    then have "sorted_wrt (\<lambda>a b. endMs a < startMs b) (mrg nxt rest)" by (rule Cons.IH)
    moreover have "\<forall>x \<in> set (mrg nxt rest). endMs cur < startMs x"
      using mrg_starts [OF s] False by fastforce
    ultimately show ?thesis using False by simp
  qed
qed

lemma mrg_fix:
  "sorted_wrt (\<lambda>a b. endMs a < startMs b) (cur # rest) \<Longrightarrow> mrg cur rest = cur # rest"
proof (induction rest arbitrary: cur)
  case Nil
  then show ?case by simp
next
  case (Cons nxt rest)
  from Cons.prems have "\<not> startMs nxt \<le> endMs cur" by simp
  moreover from Cons.prems have "mrg nxt rest = nxt # rest" by (intro Cons.IH) simp
  ultimately show ?case by simp
qed


lemma mrg_list_cover: "sorted (map startMs xs) \<Longrightarrow> cover (mrg_list xs) = cover xs"
  by (cases xs) (simp_all add: mrg_list_def mrg_cover del: cover_Cons)

lemma mrg_list_chain:
  "sorted (map startMs xs) \<Longrightarrow> sorted_wrt (\<lambda>a b. endMs a < startMs b) (mrg_list xs)"
  by (cases xs) (simp_all add: mrg_list_def mrg_chain)

lemma mrg_list_valid: "\<forall>x \<in> set xs. valid x \<Longrightarrow> \<forall>x \<in> set (mrg_list xs). valid x"
proof (cases xs)
  case Nil
  then show ?thesis by (simp add: mrg_list_def)
next
  case (Cons a r)
  assume "\<forall>x \<in> set xs. valid x"
  with Cons have "\<forall>x \<in> set (mrg a r). valid x" by (intro mrg_valid) simp_all
  with Cons show ?thesis by (simp add: mrg_list_def)
qed

lemma mrg_list_fix:
  "sorted_wrt (\<lambda>a b. endMs a < startMs b) xs \<Longrightarrow> mrg_list xs = xs"
  by (cases xs) (simp_all add: mrg_list_def mrg_fix)

lemma Interval_copy: "(\<lambda>i::Interval. \<lparr>startMs = startMs i, endMs = endMs i\<rparr>) = (\<lambda>i. i)"
  by (rule ext) simp

lemma sorted_fst_of_pair:
  "sorted (map (\<lambda>i. (f i, g i)) xs) \<Longrightarrow> sorted (map f xs)"
  by (induction xs) (auto simp: less_eq_prod_def)

lemma cover_filter_valid: "cover (filter (\<lambda>i. startMs i < endMs i) xs) = cover xs"
  by (auto simp: cover_def span_def)

lemma cover_sort_key: "cover (sort_key f xs) = cover xs"
  by (simp add: cover_def)

lemma chain_sorted_key:
  "sorted_wrt (\<lambda>a b. endMs a < startMs b) ys \<Longrightarrow> \<forall>x \<in> set ys. valid x \<Longrightarrow>
   sorted (map (\<lambda>i. (startMs i, endMs i)) ys)"
  by (induction ys) (fastforce simp: valid_def less_eq_prod_def)+

lemma chain_sorted_start:
  "sorted_wrt (\<lambda>a b. endMs a < startMs b) ys \<Longrightarrow> \<forall>x \<in> set ys. valid x \<Longrightarrow>
   sorted (map startMs ys)"
  by (rule sorted_fst_of_pair) (rule chain_sorted_key)

lemma mergeIntervals_eq: "mergeIntervals xs = Inr (merged xs)"
proof -
  let ?cl = "sort_key (\<lambda>i. (startMs i, endMs i)) (filter (\<lambda>i. startMs i < endMs i) xs)"
  show ?thesis
  proof (cases ?cl)
    case Nil
    then show ?thesis by (simp add: mergeIntervals_def merged_def mrg_list_def Interval_copy)
  next
    case (Cons c r)
    have "set ?cl \<subseteq> {i. valid i}" by (auto simp: valid_def)
    with Cons have vc: "valid c" and vr: "\<forall>x \<in> set r. valid x" by auto
    from vc have "assertValid c = Inr ()" by (simp add: assertValid_def valid_def)
    then show ?thesis using Cons merge_loop_eq [OF vr, of "[]" c]
      by (simp add: mergeIntervals_def merged_def mrg_list_def Interval_copy)
  qed
qed

lemma merged_sorted_input:
  "sorted (map startMs (sort_key (\<lambda>i. (startMs i, endMs i)) (filter (\<lambda>i. startMs i < endMs i) xs)))"
  by (rule sorted_fst_of_pair) (rule sorted_sort_key)

lemma merged_cover: "cover (merged xs) = cover xs"
  by (simp add: merged_def mrg_list_cover [OF merged_sorted_input] cover_sort_key cover_filter_valid)

lemma merged_chain: "sorted_wrt (\<lambda>a b. endMs a < startMs b) (merged xs)"
  unfolding merged_def by (rule mrg_list_chain) (rule merged_sorted_input)

lemma merged_valid: "\<forall>x \<in> set (merged xs). valid x"
  unfolding merged_def by (rule mrg_list_valid) (simp add: valid_def)

lemma merged_fix:
  assumes ch: "sorted_wrt (\<lambda>a b. endMs a < startMs b) ys" and v: "\<forall>x \<in> set ys. valid x"
  shows "merged ys = ys"
proof -
  from v have "filter (\<lambda>i. startMs i < endMs i) ys = ys" by (simp add: valid_def)
  moreover have "sort_key (\<lambda>i. (startMs i, endMs i)) ys = ys"
    by (rule sort_key_id_if_sorted) (rule chain_sorted_key [OF ch v])
  ultimately show ?thesis by (simp add: merged_def mrg_list_fix [OF ch])
qed

lemma merged_idem: "merged (merged xs) = merged xs"
  by (rule merged_fix) (rule merged_chain, rule merged_valid)

text \<open>The row version.\<close>

lemma row_item_row_of: "row_item (row_of y) = (if valid y then Some y else None)"
  by (simp add: row_item_def row_of_def toMs_def toIso_def valid_def)

lemma map_filter_row_of:
  "\<forall>y \<in> set ys. valid y \<Longrightarrow> List.map_filter row_item (map row_of ys) = ys"
  by (induction ys) (simp_all add: List.map_filter_simps row_item_row_of)

lemma row_item_valid: "row_item r = Some x \<Longrightarrow> valid x"
  by (auto simp: row_item_def valid_def split: option.splits if_splits)

lemma map_filter_row_item_valid: "\<forall>x \<in> set (List.map_filter row_item rows). valid x"
  by (auto simp: List.map_filter_def row_item_valid)

lemma mergeIntervalRows_eq:
  "mergeIntervalRows rows = map row_of (mrg_list (sort_key startMs (List.map_filter row_item rows)))"
proof (cases "sort_key startMs (List.map_filter row_item rows)")
  case Nil
  then show ?thesis by (simp add: mergeIntervalRows_def mrg_list_def)
next
  case (Cons a r)
  then show ?thesis using merge_in_place_eq [of "[]" a r]
    by (simp add: mergeIntervalRows_def mrg_list_def)
qed

lemma mergeIntervalRows_idem:
  "mergeIntervalRows (mergeIntervalRows rows) = mergeIntervalRows rows"
proof -
  let ?ys = "mrg_list (sort_key startMs (List.map_filter row_item rows))"
  have s: "sorted (map startMs (sort_key startMs (List.map_filter row_item rows)))"
    by (rule sorted_sort_key)
  have ch: "sorted_wrt (\<lambda>a b. endMs a < startMs b) ?ys" by (rule mrg_list_chain [OF s])
  have v: "\<forall>x \<in> set ?ys. valid x"
    by (rule mrg_list_valid) (simp add: map_filter_row_item_valid)
  have "sort_key startMs ?ys = ?ys"
    by (rule sort_key_id_if_sorted) (rule chain_sorted_start [OF ch v])
  then show ?thesis
    by (simp add: mergeIntervalRows_eq [of rows] mergeIntervalRows_eq [of "map row_of ?ys"]
        map_filter_row_of [OF v] mrg_list_fix [OF ch])
qed

text \<open>
  C4. For every list of intervals (ill-formed entries are dropped, so in particular for
  every list of well-formed ones) \<^verbatim>\<open>mergeIntervals\<close> returns a list that is sorted by
  start, in which every interval ends strictly before every later one starts, whose
  union is the union of the input, and on which \<^verbatim>\<open>mergeIntervals\<close> is the identity. The
  same holds of the row version, whose output rows denote the intervals \<open>ys\<close>.
\<close>

theorem mergeIntervals_sorted_separated_cover_idempotent:
  "(\<exists>out. mergeIntervals intervals = Inr out
        \<and> sorted (map startMs out)
        \<and> sorted_wrt (\<lambda>a b. endMs a < startMs b) out
        \<and> cover out = cover intervals
        \<and> mergeIntervals out = Inr out)
   \<and> (\<exists>ys. mergeIntervalRows rows = map row_of ys
        \<and> sorted (map startMs ys)
        \<and> sorted_wrt (\<lambda>a b. endMs a < startMs b) ys
        \<and> cover ys = row_cover rows
        \<and> mergeIntervalRows (mergeIntervalRows rows) = mergeIntervalRows rows)"
proof
  have "sorted (map startMs (merged intervals))"
    by (rule chain_sorted_start) (rule merged_chain, rule merged_valid)
  then show "\<exists>out. mergeIntervals intervals = Inr out
        \<and> sorted (map startMs out)
        \<and> sorted_wrt (\<lambda>a b. endMs a < startMs b) out
        \<and> cover out = cover intervals
        \<and> mergeIntervals out = Inr out"
    by (simp add: mergeIntervals_eq merged_chain merged_cover merged_idem)
next
  let ?items = "sort_key startMs (List.map_filter row_item rows)"
  let ?ys = "mrg_list ?items"
  have s: "sorted (map startMs ?items)" by (rule sorted_sort_key)
  have ch: "sorted_wrt (\<lambda>a b. endMs a < startMs b) ?ys" by (rule mrg_list_chain [OF s])
  have v: "\<forall>x \<in> set ?ys. valid x"
    by (rule mrg_list_valid) (simp add: map_filter_row_item_valid)
  have "sorted (map startMs ?ys)" by (rule chain_sorted_start [OF ch v])
  moreover have "cover ?ys = row_cover rows"
    by (simp add: mrg_list_cover [OF s] cover_sort_key row_cover_def)
  ultimately show "\<exists>ys. mergeIntervalRows rows = map row_of ys
        \<and> sorted (map startMs ys)
        \<and> sorted_wrt (\<lambda>a b. endMs a < startMs b) ys
        \<and> cover ys = row_cover rows
        \<and> mergeIntervalRows (mergeIntervalRows rows) = mergeIntervalRows rows"
    using ch mergeIntervalRows_eq [of rows] mergeIntervalRows_idem [of rows] by blast
qed

theorem mergeIntervals_sorted_separated_cover_idempotent_witness:
  "\<exists>out. mergeIntervals [\<lparr>startMs = 30, endMs = 40\<rparr>, \<lparr>startMs = 0, endMs = 10\<rparr>,
                            \<lparr>startMs = 10, endMs = 20\<rparr>] = Inr out
        \<and> sorted (map startMs out)
        \<and> sorted_wrt (\<lambda>a b. endMs a < startMs b) out
        \<and> cover out = cover [\<lparr>startMs = 30, endMs = 40\<rparr>, \<lparr>startMs = 0, endMs = 10\<rparr>,
                              \<lparr>startMs = 10, endMs = 20\<rparr>]
        \<and> mergeIntervals out = Inr out"
  using mergeIntervals_sorted_separated_cover_idempotent
          [of "[\<lparr>startMs = 30, endMs = 40\<rparr>, \<lparr>startMs = 0, endMs = 10\<rparr>,
                \<lparr>startMs = 10, endMs = 20\<rparr>]" "[]"]
  by (rule conjunct1)

subsection \<open>Subtraction\<close>

lemma cut_seg_eq: "cut_seg out cs ce bs = out @ pieces cs ce bs"
proof (induction bs arbitrary: out cs)
  case Nil
  then show ?case by simp
next
  case (Cons c rest)
  show ?case
  proof (cases "startMs c < ce")
    case True
    then show ?thesis by (simp add: Cons.IH Let_def)
  next
    case False
    then show ?thesis by simp
  qed
qed

lemma subtract_loop_eq: "subtract_loop out bj segs = out @ sub_pieces bj segs"
  by (induction segs arbitrary: out bj) (simp_all add: cut_seg_eq Let_def)

lemma span_mk [simp]: "span \<lparr>startMs = a, endMs = b\<rparr> = {a ..< b}"
  by (simp add: span_def)

lemma pieces_cover:
  "sorted_wrt (\<lambda>a b. endMs a \<le> startMs b) bs \<Longrightarrow> \<forall>c \<in> set bs. valid c \<Longrightarrow>
   cover (pieces cs ce bs) = {cs ..< ce} - cover bs"
proof (induction bs arbitrary: cs)
  case Nil
  then show ?case by auto
next
  case (Cons c rest)
  from Cons.prems have ch: "sorted_wrt (\<lambda>a b. endMs a \<le> startMs b) rest"
    and v: "\<forall>c \<in> set rest. valid c" and vc: "startMs c < endMs c"
    and after: "\<forall>x \<in> set rest. endMs c \<le> startMs x"
    by (simp_all add: valid_def)
  have IH: "cover (pieces cs' ce rest) = {cs' ..< ce} - cover rest" for cs'
    by (rule Cons.IH [OF ch v])
  have rest_after: "t \<in> cover rest \<Longrightarrow> endMs c \<le> t" for t
    using after by (fastforce simp: cover_def span_def)
  show ?case
  proof (cases "startMs c < ce")
    case True
    show ?thesis
    proof (rule set_eqI)
      fix t
      show "t \<in> cover (pieces cs ce (c # rest)) \<longleftrightarrow> t \<in> {cs ..< ce} - cover (c # rest)"
        using True vc rest_after [of t] by (auto simp: IH span_def)
    qed
  next
    case False
    show ?thesis
    proof (rule set_eqI)
      fix t
      show "t \<in> cover (pieces cs ce (c # rest)) \<longleftrightarrow> t \<in> {cs ..< ce} - cover (c # rest)"
        using False vc rest_after [of t] by (auto simp: span_def)
    qed
  qed
qed


lemma pieces_bounds:
  "cs < ce \<Longrightarrow> x \<in> set (pieces cs ce bs) \<Longrightarrow> cs \<le> startMs x \<and> endMs x \<le> ce \<and> valid x"
proof (induction bs arbitrary: cs)
  case Nil
  then show ?case by (auto simp: valid_def)
next
  case (Cons c rest)
  show ?case
  proof (cases "startMs c < ce")
    case False
    with Cons.prems show ?thesis by (auto simp: valid_def)
  next
    case True
    from Cons.prems(2) True
    consider (piece) "cs < startMs c" "x = \<lparr>startMs = cs, endMs = min (startMs c) ce\<rparr>"
      | (later) "max cs (endMs c) < ce" "x \<in> set (pieces (max cs (endMs c)) ce rest)"
      by (auto simp: not_le split: if_splits)
    then show ?thesis
    proof cases
      case piece
      with Cons.prems(1) show ?thesis by (simp add: valid_def)
    next
      case later
      from Cons.IH [OF later] show ?thesis by simp
    qed
  qed
qed

lemma pieces_chain:
  "sorted_wrt (\<lambda>a b. endMs a \<le> startMs b) bs \<Longrightarrow> \<forall>c \<in> set bs. valid c \<Longrightarrow> cs < ce \<Longrightarrow>
   sorted_wrt (\<lambda>a b. endMs a \<le> startMs b) (pieces cs ce bs)"
proof (induction bs arbitrary: cs)
  case Nil
  then show ?case by simp
next
  case (Cons c rest)
  from Cons.prems have ch: "sorted_wrt (\<lambda>a b. endMs a \<le> startMs b) rest"
    and v: "\<forall>c \<in> set rest. valid c" and vc: "startMs c < endMs c"
    by (simp_all add: valid_def)
  show ?case
  proof (cases "startMs c < ce \<and> max cs (endMs c) < ce")
    case False
    then show ?thesis by auto
  next
    case True
    then have lt: "max cs (endMs c) < ce" by simp
    have tail: "sorted_wrt (\<lambda>a b. endMs a \<le> startMs b) (pieces (max cs (endMs c)) ce rest)"
      by (rule Cons.IH [OF ch v lt])
    have "\<forall>x \<in> set (pieces (max cs (endMs c)) ce rest). min (startMs c) ce \<le> startMs x"
      using pieces_bounds [OF lt] vc by fastforce
    with tail True show ?thesis by (simp add: sorted_wrt_append)
  qed
qed

lemma sorted_wrt_dropWhile_suffix:
  "sorted_wrt P xs \<Longrightarrow> sorted_wrt P (dropWhile Q xs)"
proof -
  assume "sorted_wrt P xs"
  then have "sorted_wrt P (takeWhile Q xs @ dropWhile Q xs)" by simp
  then show ?thesis unfolding sorted_wrt_append by blast
qed

lemma cover_dropWhile_from:
  assumes "seg_start \<le> t"
  shows "t \<in> cover (dropWhile (\<lambda>c. endMs c \<le> seg_start) bj) \<longleftrightarrow> t \<in> cover bj"
proof -
  have "cover bj = cover (takeWhile (\<lambda>c. endMs c \<le> seg_start) bj)
                 \<union> cover (dropWhile (\<lambda>c. endMs c \<le> seg_start) bj)"
    by (simp flip: cover_append)
  moreover have "t \<notin> cover (takeWhile (\<lambda>c. endMs c \<le> seg_start) bj)"
    using assms by (auto simp: cover_def span_def dest!: set_takeWhileD)
  ultimately show ?thesis by simp
qed

lemma sub_pieces_cover:
  "sorted (map startMs segs) \<Longrightarrow> sorted_wrt (\<lambda>a b. endMs a \<le> startMs b) bj \<Longrightarrow>
   \<forall>c \<in> set bj. valid c \<Longrightarrow> cover (sub_pieces bj segs) = cover segs - cover bj"
proof (induction segs arbitrary: bj)
  case Nil
  then show ?case by simp
next
  case (Cons seg segs)
  let ?bj1 = "dropWhile (\<lambda>c. endMs c \<le> startMs seg) bj"
  from Cons.prems(1) have s: "sorted (map startMs segs)"
    and later: "\<forall>x \<in> set segs. startMs seg \<le> startMs x" by simp_all
  have ch1: "sorted_wrt (\<lambda>a b. endMs a \<le> startMs b) ?bj1"
    by (rule sorted_wrt_dropWhile_suffix) (rule Cons.prems(2))
  have v1: "\<forall>c \<in> set ?bj1. valid c" using Cons.prems(3) by (auto dest: set_dropWhileD)
  have a: "cover (pieces (startMs seg) (endMs seg) ?bj1) = span seg - cover ?bj1"
    by (simp add: pieces_cover [OF ch1 v1] span_def)
  have b: "cover (sub_pieces ?bj1 segs) = cover segs - cover ?bj1"
    by (rule Cons.IH [OF s ch1 v1])
  have from_seg: "startMs seg \<le> t" if "t \<in> span seg \<union> cover segs" for t
    using that later by (fastforce simp: cover_def span_def)
  show ?case
  proof (rule set_eqI)
    fix t
    show "t \<in> cover (sub_pieces bj (seg # segs)) \<longleftrightarrow> t \<in> cover (seg # segs) - cover bj"
      using from_seg [of t] cover_dropWhile_from [of "startMs seg" t bj]
      by (auto simp: a b Let_def)
  qed
qed

lemma sub_pieces_within:
  "\<forall>s \<in> set segs. valid s \<Longrightarrow> x \<in> set (sub_pieces bj segs) \<Longrightarrow>
   \<exists>s \<in> set segs. startMs s \<le> startMs x \<and> endMs x \<le> endMs s"
proof (induction segs arbitrary: bj)
  case Nil
  then show ?case by simp
next
  case (Cons seg segs)
  let ?bj1 = "dropWhile (\<lambda>c. endMs c \<le> startMs seg) bj"
  from Cons.prems(1) have vs: "startMs seg < endMs seg" and v: "\<forall>s \<in> set segs. valid s"
    by (simp_all add: valid_def)
  from Cons.prems(2)
  have "x \<in> set (pieces (startMs seg) (endMs seg) ?bj1) \<or> x \<in> set (sub_pieces ?bj1 segs)"
    by (simp add: Let_def)
  then show ?case
  proof
    assume "x \<in> set (pieces (startMs seg) (endMs seg) ?bj1)"
    from pieces_bounds [OF vs this] show ?thesis by simp
  next
    assume "x \<in> set (sub_pieces ?bj1 segs)"
    from Cons.IH [OF v this] show ?thesis by auto
  qed
qed

lemma sub_pieces_chain:
  "sorted_wrt (\<lambda>a b. endMs a < startMs b) segs \<Longrightarrow> \<forall>s \<in> set segs. valid s \<Longrightarrow>
   sorted_wrt (\<lambda>a b. endMs a \<le> startMs b) bj \<Longrightarrow> \<forall>c \<in> set bj. valid c \<Longrightarrow>
   sorted_wrt (\<lambda>a b. endMs a \<le> startMs b) (sub_pieces bj segs)"
proof (induction segs arbitrary: bj)
  case Nil
  then show ?case by simp
next
  case (Cons seg segs)
  let ?bj1 = "dropWhile (\<lambda>c. endMs c \<le> startMs seg) bj"
  from Cons.prems(1) have ch: "sorted_wrt (\<lambda>a b. endMs a < startMs b) segs"
    and later: "\<forall>s \<in> set segs. endMs seg < startMs s" by simp_all
  from Cons.prems(2) have vs: "startMs seg < endMs seg" and v: "\<forall>s \<in> set segs. valid s"
    by (simp_all add: valid_def)
  have ch1: "sorted_wrt (\<lambda>a b. endMs a \<le> startMs b) ?bj1"
    by (rule sorted_wrt_dropWhile_suffix) (rule Cons.prems(3))
  have v1: "\<forall>c \<in> set ?bj1. valid c" using Cons.prems(4) by (auto dest: set_dropWhileD)
  have p: "sorted_wrt (\<lambda>a b. endMs a \<le> startMs b) (pieces (startMs seg) (endMs seg) ?bj1)"
    by (rule pieces_chain [OF ch1 v1 vs])
  have q: "sorted_wrt (\<lambda>a b. endMs a \<le> startMs b) (sub_pieces ?bj1 segs)"
    by (rule Cons.IH [OF ch v ch1 v1])
  have cross: "\<forall>x \<in> set (pieces (startMs seg) (endMs seg) ?bj1).
                 \<forall>y \<in> set (sub_pieces ?bj1 segs). endMs x \<le> startMs y"
  proof (intro ballI)
    fix x y
    assume x: "x \<in> set (pieces (startMs seg) (endMs seg) ?bj1)"
      and y: "y \<in> set (sub_pieces ?bj1 segs)"
    from pieces_bounds [OF vs x] have "endMs x \<le> endMs seg" by simp
    moreover from sub_pieces_within [OF v y]
    obtain s where "s \<in> set segs" and "startMs s \<le> startMs y" by blast
    moreover from this later have "endMs seg < startMs s" by blast
    ultimately show "endMs x \<le> startMs y" by linarith
  qed
  have "sub_pieces bj (seg # segs) = pieces (startMs seg) (endMs seg) ?bj1 @ sub_pieces ?bj1 segs"
    by (simp add: Let_def)
  then show ?case using p q cross by (simp only: sorted_wrt_append)
qed

lemma subtractIntervals_eq:
  "subtractIntervals base cuts =
     Inr (if merged base = [] then [] else if merged cuts = [] then merged base
          else sub_pieces (merged cuts) (merged base))"
  by (simp add: subtractIntervals_def mergeIntervals_eq subtract_loop_eq)

lemma chain_weaken:
  assumes "sorted_wrt (\<lambda>a b. endMs a < startMs b) xs"
  shows "sorted_wrt (\<lambda>a b. endMs a \<le> startMs b) xs"
  by (rule sorted_wrt_mono_rel [OF _ assms]) simp

lemma chain_disjoint:
  assumes "sorted_wrt (\<lambda>a b. endMs a \<le> startMs b) xs"
  shows "sorted_wrt (\<lambda>a b. span a \<inter> span b = {}) xs"
  by (rule sorted_wrt_mono_rel [OF _ assms]) (auto simp: span_def)

lemma subtractIntervals_cover:
  "\<exists>out. subtractIntervals base cuts = Inr out \<and> cover out = cover base - cover cuts"
proof -
  have s: "sorted (map startMs (merged base))"
    by (rule chain_sorted_start) (rule merged_chain, rule merged_valid)
  have "cover (sub_pieces (merged cuts) (merged base)) = cover (merged base) - cover (merged cuts)"
    by (rule sub_pieces_cover [OF s chain_weaken [OF merged_chain] merged_valid])
  moreover have "merged base = [] \<Longrightarrow> cover base = {}" using merged_cover [of base] by simp
  moreover have "merged cuts = [] \<Longrightarrow> cover cuts = {}" using merged_cover [of cuts] by simp
  ultimately show ?thesis by (auto simp: subtractIntervals_eq merged_cover)
qed

text \<open>
  C5. For all lists of intervals \<open>base\<close> and \<open>cuts\<close> (ill-formed entries are dropped by the
  merge, so in particular for well-formed ones) \<^verbatim>\<open>subtractIntervals\<close> returns a list; every
  instant covered by it lies in the union of \<open>base\<close> and in no interval of \<open>cuts\<close>, and its
  intervals are pairwise disjoint.
\<close>

theorem subtractIntervals_within_base_outside_cut_disjoint:
  "\<exists>out. subtractIntervals base cuts = Inr out
        \<and> cover out \<subseteq> cover base - cover cuts
        \<and> sorted_wrt (\<lambda>a b. span a \<inter> span b = {}) out"
proof -
  let ?out = "if merged base = [] then [] else if merged cuts = [] then merged base
              else sub_pieces (merged cuts) (merged base)"
  have "sorted_wrt (\<lambda>a b. endMs a \<le> startMs b) (sub_pieces (merged cuts) (merged base))"
    by (rule sub_pieces_chain [OF merged_chain merged_valid chain_weaken [OF merged_chain] merged_valid])
  then have "sorted_wrt (\<lambda>a b. endMs a \<le> startMs b) ?out"
    using chain_weaken [OF merged_chain [of base]] by simp
  then have "sorted_wrt (\<lambda>a b. span a \<inter> span b = {}) ?out" by (rule chain_disjoint)
  moreover from subtractIntervals_cover [of base cuts]
  have "cover ?out \<subseteq> cover base - cover cuts" by (simp add: subtractIntervals_eq)
  ultimately show ?thesis unfolding subtractIntervals_eq by blast
qed

theorem subtractIntervals_within_base_outside_cut_disjoint_witness:
  "\<exists>out. subtractIntervals [\<lparr>startMs = 0, endMs = 100\<rparr>, \<lparr>startMs = 200, endMs = 300\<rparr>]
            [\<lparr>startMs = 90, endMs = 210\<rparr>, \<lparr>startMs = 10, endMs = 20\<rparr>] = Inr out
        \<and> cover out \<subseteq> cover [\<lparr>startMs = 0, endMs = 100\<rparr>, \<lparr>startMs = 200, endMs = 300\<rparr>]
                      - cover [\<lparr>startMs = 90, endMs = 210\<rparr>, \<lparr>startMs = 10, endMs = 20\<rparr>]
        \<and> sorted_wrt (\<lambda>a b. span a \<inter> span b = {}) out"
  by (rule subtractIntervals_within_base_outside_cut_disjoint)

section \<open>Properties of the free-slot generator\<close>













subsection \<open>The handler without active offers\<close>







section \<open>Properties of the checkout\<close>

lemma rollback_same: "rollback db db = db"
  by (simp add: rollback_def)

lemma checkout_tx_unavailable:
  assumes "length (matchingRows db teacherId (requiredStarts start d)) < length (requiredStarts start d)
         \<or> (\<exists>r \<in> set (matchingRows db teacherId (requiredStarts start d)).
               av_endUtc r - av_startUtc r \<noteq> 30 * 60000)"
  shows "\<exists>msg. checkout_tx user teacherId start d stripeDisabled stripe now db = (Inl (Error msg), db)"
proof (cases "find (\<lambda>x. lo_teacherId x = teacherId \<and> lo_durationMinutes x = d \<and> lo_isActive x = 1)
                (lessonOffers db)")
  case None
  then show ?thesis by (simp add: checkout_tx_def)
next
  case (Some offer)
  show ?thesis
  proof (cases "length (matchingRows db teacherId (requiredStarts start d)) \<noteq> length (requiredStarts start d)")
    case True
    with Some show ?thesis by (simp add: checkout_tx_def Let_def)
  next
    case False
    with assms have "\<exists>r \<in> set (matchingRows db teacherId (requiredStarts start d)).
               av_endUtc r - av_startUtc r \<noteq> 30 * 60000" by simp
    then have "list_ex (\<lambda>r. av_endUtc r - av_startUtc r \<noteq> GRID_MINUTES * MINUTE_MS)
                 (matchingRows db teacherId (requiredStarts start d))"
      by (simp add: list_ex_iff GRID_MINUTES_def MINUTE_MS_def)
    with Some False show ?thesis by (simp add: checkout_tx_def Let_def)
  qed
qed

text \<open>
  C2. A checkout request for 30 or 60 minutes fails with an error and leaves the state as
  it was whenever the teacher's availability rows that start at the required instants are
  fewer than required, or one of them is not exactly 30 minutes long: the transaction body
  throws before it has written anything, and the response is an error.
\<close>

theorem checkout_unavailable_fails_state_unchanged:
  assumes "cb_teacherId body = Some teacherId" and "cb_startUtc body = At start"
    and "cb_durationMinutes body = Some d" and "d = 30 \<or> d = 60"
    and "length (matchingRows db teacherId (requiredStarts start d)) < length (requiredStarts start d)
         \<or> (\<exists>r \<in> set (matchingRows db teacherId (requiredStarts start d)).
               av_endUtc r - av_startUtc r \<noteq> 30 * 60000)"
  shows "(\<exists>code msg. checkout_POST userOpt body stripeDisabled stripe now db
                       = (CheckoutError code msg, db))
       \<and> (\<exists>msg. checkout_tx user teacherId start d stripeDisabled stripe now db
                       = (Inl (Error msg), db))"
proof
  show "\<exists>msg. checkout_tx user teacherId start d stripeDisabled stripe now db = (Inl (Error msg), db)"
    by (rule checkout_tx_unavailable [OF assms(5)])
  show "\<exists>code msg. checkout_POST userOpt body stripeDisabled stripe now db
                       = (CheckoutError code msg, db)"
  proof (cases userOpt)
    case None
    then show ?thesis by (simp add: checkout_POST_def)
  next
    case (Some u)
    from checkout_tx_unavailable [OF assms(5)] obtain msg where
      "checkout_tx u teacherId start d stripeDisabled stripe now db = (Inl (Error msg), db)"
      by blast
    then show ?thesis using Some assms(1-4)
      by (auto simp: checkout_POST_def transaction_def rollback_same)
  qed
qed

theorem checkout_unavailable_fails_state_unchanged_witness:
  "checkout_POST (Some \<lparr>user_id = 9, user_email = ''s@test.com''\<rparr>)
     \<lparr>cb_teacherId = Some 7, cb_startUtc = At 14400000, cb_durationMinutes = Some 60\<rparr>
     False (StripeSession ''cs_test_123'' ''https://stripe.test/checkout/cs_test_123'') 5
     db_first_block_only
   = (CheckoutError 400 ''Slot not available'', db_first_block_only)
   \<and> length (matchingRows db_first_block_only 7 (requiredStarts 14400000 60)) = 1
   \<and> length (requiredStarts 14400000 60) = 2"
  using checkout_unavailable_fails_state_unchanged
          [of "\<lparr>cb_teacherId = Some 7, cb_startUtc = At 14400000, cb_durationMinutes = Some 60\<rparr>"
              7 14400000 60 db_first_block_only
              "Some \<lparr>user_id = 9, user_email = ''s@test.com''\<rparr>" False
              "StripeSession ''cs_test_123'' ''https://stripe.test/checkout/cs_test_123''" 5
              "\<lparr>user_id = 9, user_email = ''s@test.com''\<rparr>"]
  by (simp add: db_first_block_only_def checkout_POST_def checkout_tx_def transaction_def
      rollback_def matchingRows_def requiredStarts_def GRID_MINUTES_def MINUTE_MS_def)

section \<open>Properties of the cancellation\<close>

lemma insert_availability_bookings [simp]:
  "bookings (insert_availability vs db) = bookings db"
  by (induction vs arbitrary: db) simp_all

lemma insert_availability_rows:
  "\<exists>added. teacherAvailability (insert_availability vs db) = teacherAvailability db @ added
         \<and> map (\<lambda>r. (av_teacherId r, av_startUtc r, av_endUtc r)) added
           = map (\<lambda>v. (na_teacherId v, na_startUtc v, na_endUtc v)) vs"
proof (induction vs arbitrary: db)
  case Nil
  then show ?case by simp
next
  case (Cons v vs)
  let ?row = "\<lparr>av_id = teacherAvailability_seq db, av_teacherId = na_teacherId v,
                 av_startUtc = na_startUtc v, av_endUtc = na_endUtc v,
                 av_source = na_source v, av_createdAt = na_createdAt v\<rparr>"
  let ?db = "db\<lparr>teacherAvailability := teacherAvailability db @ [?row],
                teacherAvailability_seq := teacherAvailability_seq db + 1\<rparr>"
  from Cons.IH [of ?db] obtain added where
    a: "teacherAvailability (insert_availability vs ?db) = teacherAvailability ?db @ added"
    and b: "map (\<lambda>r. (av_teacherId r, av_startUtc r, av_endUtc r)) added
           = map (\<lambda>v. (na_teacherId v, na_startUtc v, na_endUtc v)) vs"
    by blast
  have "teacherAvailability (insert_availability (v # vs) db) = teacherAvailability db @ (?row # added)"
    using a by simp
  moreover have "map (\<lambda>r. (av_teacherId r, av_startUtc r, av_endUtc r)) (?row # added)
           = map (\<lambda>v. (na_teacherId v, na_startUtc v, na_endUtc v)) (v # vs)"
    using b by simp
  ultimately show ?case by blast
qed

lemma find_map_preserved:
  "(\<And>x. P (f x) = P x) \<Longrightarrow> find P (map f xs) = map_option f (find P xs)"
  by (induction xs) simp_all

lemma buildAtomicStarts_blocks:
  "0 < n \<Longrightarrow> buildAtomicStarts s (s + int n * (30 * 60000))
               = map (\<lambda>i. s + int i * (30 * 60000)) [0 ..< n]"
  by (simp add: buildAtomicStarts_def GRID_MINUTES_def MINUTE_MS_def Let_def algebra_simps)


lemma missing_filter:
  "filter (\<lambda>d. d \<notin> set (map av_startUtc (matchingRows db teacherId required))) required
   = missingStarts db teacherId required"
  unfolding missingStarts_def
  by (rule filter_cong) (auto simp: matchingRows_def list_ex_iff)

lemma matchingRows_bookings_update [simp]:
  "matchingRows (db\<lparr>bookings := bs\<rparr>) teacherId required = matchingRows db teacherId required"
  by (simp add: matchingRows_def)

lemma missingStarts_bookings_update [simp]:
  "missingStarts (db\<lparr>bookings := bs\<rparr>) teacherId required = missingStarts db teacherId required"
  by (simp add: missingStarts_def)

lemma cancel_tx_pending:
  assumes f: "find (\<lambda>x. bk_id x = bookingId \<and> bk_studentId x = user_id user) (bookings db) = Some b"
    and st: "bk_status b = ''pending''"
  shows "cancel_tx user bookingId now db =
     (let dbc = db\<lparr>bookings := map (mark_canceled (bk_id b) now) (bookings db)\<rparr>;
          rowsToInsert =
            map (\<lambda>s. \<lparr>na_teacherId = bk_teacherId b, na_startUtc = s,
                       na_endUtc = s + GRID_MINUTES * MINUTE_MS,
                       na_source = ''manual'', na_createdAt = now\<rparr>)
              (missingStarts db (bk_teacherId b) (buildAtomicStarts (bk_startUtc b) (bk_endUtc b)))
      in (Inr (CancelRestored (length rowsToInsert)), insert_availability rowsToInsert dbc))"
proof -
  have upd: "(\<lambda>x. if bk_id x = bk_id b then x\<lparr>bk_status := ''canceled'', bk_updatedAt := now\<rparr> else x)
             = mark_canceled (bk_id b) now"
    by (rule ext) (simp add: mark_canceled_def)
  show ?thesis
  proof (cases "buildAtomicStarts (bk_startUtc b) (bk_endUtc b) = []")
    case True
    then show ?thesis using f st
      by (simp add: cancel_tx_def Let_def upd missingStarts_def)
  next
    case False
    then show ?thesis using f st
      by (simp add: cancel_tx_def Let_def upd missing_filter del: set_map)
  qed
qed

lemma cancel_tx_canceled:
  assumes f: "find (\<lambda>x. bk_id x = bookingId \<and> bk_studentId x = user_id user) (bookings db) = Some b"
    and st: "bk_status b = ''canceled''"
    and none: "missingStarts db (bk_teacherId b) (buildAtomicStarts (bk_startUtc b) (bk_endUtc b)) = []"
  shows "cancel_tx user bookingId now db = (Inr (CancelRestored 0), db)"
proof (cases "buildAtomicStarts (bk_startUtc b) (bk_endUtc b) = []")
  case True
  then show ?thesis using f st by (simp add: cancel_tx_def Let_def)
next
  case False
  then show ?thesis using f st none
    by (simp add: cancel_tx_def Let_def missing_filter del: set_map)
qed

lemma find_mark_canceled:
  assumes "find (\<lambda>x. bk_id x = bookingId \<and> bk_studentId x = uid) bs = Some b"
  shows "find (\<lambda>x. bk_id x = bookingId \<and> bk_studentId x = uid) (map (mark_canceled i now) bs)
         = Some (mark_canceled i now b)"
proof -
  have "(bk_id (mark_canceled i now x) = bookingId \<and> bk_studentId (mark_canceled i now x) = uid)
        = (bk_id x = bookingId \<and> bk_studentId x = uid)" for x
    by (simp add: mark_canceled_def)
  then have "find (\<lambda>x. bk_id x = bookingId \<and> bk_studentId x = uid) (map (mark_canceled i now) bs)
        = map_option (mark_canceled i now) (find (\<lambda>x. bk_id x = bookingId \<and> bk_studentId x = uid) bs)"
    by (rule find_map_preserved)
  with assms show ?thesis by simp
qed

lemma missingStarts_after_insert:
  assumes a: "teacherAvailability db1 = teacherAvailability db @ added"
    and b: "map (\<lambda>r. (av_teacherId r, av_startUtc r, av_endUtc r)) added
            = map (\<lambda>s. (teacherId, s, s + len)) (missingStarts db teacherId required)"
  shows "missingStarts db1 teacherId required = []"
proof -
  have "list_ex (\<lambda>r. av_teacherId r = teacherId \<and> av_startUtc r = s) (teacherAvailability db1)"
    if s: "s \<in> set required" for s
  proof (cases "list_ex (\<lambda>r. av_teacherId r = teacherId \<and> av_startUtc r = s) (teacherAvailability db)")
    case True
    then show ?thesis by (auto simp: a list_ex_iff)
  next
    case False
    with s have "s \<in> set (missingStarts db teacherId required)" by (simp add: missingStarts_def)
    then have "(teacherId, s, s + len)
               \<in> set (map (\<lambda>s. (teacherId, s, s + len)) (missingStarts db teacherId required))"
      by simp
    then have "(teacherId, s, s + len) \<in> set (map (\<lambda>r. (av_teacherId r, av_startUtc r, av_endUtc r)) added)"
      by (simp only: b)
    then obtain r where "r \<in> set added" "av_teacherId r = teacherId" "av_startUtc r = s"
      by auto
    then show ?thesis by (auto simp: a list_ex_iff)
  qed
  then show ?thesis by (simp add: missingStarts_def filter_empty_conv)
qed


text \<open>
  C7. When the requesting student, signed in, cancels a pending booking of theirs, the booking is
  marked canceled, the response reports as restored the number of atomic starts of the
  booking's range (\<^verbatim>\<open>buildAtomicStarts\<close>: one every 30 minutes from the start, for a range
  that is a positive multiple of 30 minutes) at which the teacher had no availability row,
  and exactly those rows, each 30 minutes long, are appended to the availability table.
  Cancelling the same booking again at any later time succeeds, reports zero restored
  rows and leaves the whole state as it was.
\<close>

theorem cancel_pending_restores_missing_blocks_and_is_idempotent:
  assumes "find (\<lambda>x. bk_id x = bookingId \<and> bk_studentId x = user_id user) (bookings db) = Some b"
    and "bk_status b = ''pending''"
    and "user_id user \<noteq> 0"
  shows "\<exists>db1 added.
      cancel_POST (Some user) (Some bookingId) now db
        = (CancelOk (length (missingStarts db (bk_teacherId b)
                               (buildAtomicStarts (bk_startUtc b) (bk_endUtc b)))), db1)
    \<and> find (\<lambda>x. bk_id x = bookingId \<and> bk_studentId x = user_id user) (bookings db1)
        = Some (b\<lparr>bk_status := ''canceled'', bk_updatedAt := now\<rparr>)
    \<and> teacherAvailability db1 = teacherAvailability db @ added
    \<and> map (\<lambda>r. (av_teacherId r, av_startUtc r, av_endUtc r)) added
        = map (\<lambda>s. (bk_teacherId b, s, s + 30 * 60000))
            (missingStarts db (bk_teacherId b) (buildAtomicStarts (bk_startUtc b) (bk_endUtc b)))
    \<and> (\<forall>n > 0. bk_endUtc b = bk_startUtc b + int n * (30 * 60000) \<longrightarrow>
          buildAtomicStarts (bk_startUtc b) (bk_endUtc b)
            = map (\<lambda>i. bk_startUtc b + int i * (30 * 60000)) [0 ..< n])
    \<and> cancel_POST (Some user) (Some bookingId) now2 db1 = (CancelOk 0, db1)"
proof -
  let ?P = "\<lambda>x. bk_id x = bookingId \<and> bk_studentId x = user_id user"
  let ?req = "buildAtomicStarts (bk_startUtc b) (bk_endUtc b)"
  let ?miss = "missingStarts db (bk_teacherId b) ?req"
  let ?dbc = "db\<lparr>bookings := map (mark_canceled (bk_id b) now) (bookings db)\<rparr>"
  let ?rows = "map (\<lambda>s. \<lparr>na_teacherId = bk_teacherId b, na_startUtc = s,
                       na_endUtc = s + GRID_MINUTES * MINUTE_MS,
                       na_source = ''manual'', na_createdAt = now\<rparr>) ?miss"
  let ?db1 = "insert_availability ?rows ?dbc"
  let ?b1 = "b\<lparr>bk_status := ''canceled'', bk_updatedAt := now\<rparr>"
  have tx1: "cancel_tx user bookingId now db = (Inr (CancelRestored (length ?miss)), ?db1)"
    using cancel_tx_pending [OF assms(1,2), of now] by (simp add: Let_def)
  then have post1: "cancel_POST (Some user) (Some bookingId) now db = (CancelOk (length ?miss), ?db1)"
    using assms(3) by (simp add: cancel_POST_def transaction_def)
  have mb: "mark_canceled (bk_id b) now b = ?b1" by (simp add: mark_canceled_def)
  have find1: "find ?P (bookings ?db1) = Some ?b1"
    using find_mark_canceled [OF assms(1), of "bk_id b" now] by (simp add: mb)
  from insert_availability_rows [of ?rows ?dbc] obtain added where
    av: "teacherAvailability ?db1 = teacherAvailability db @ added"
    and tr: "map (\<lambda>r. (av_teacherId r, av_startUtc r, av_endUtc r)) added
             = map (\<lambda>s. (bk_teacherId b, s, s + 30 * 60000)) ?miss"
    by (auto simp: comp_def GRID_MINUTES_def MINUTE_MS_def)
  have none: "missingStarts ?db1 (bk_teacherId ?b1) (buildAtomicStarts (bk_startUtc ?b1) (bk_endUtc ?b1)) = []"
    using missingStarts_after_insert [OF av tr] by simp
  have "cancel_tx user bookingId now2 ?db1 = (Inr (CancelRestored 0), ?db1)"
    by (rule cancel_tx_canceled [OF find1 _ none]) simp
  then have post2: "cancel_POST (Some user) (Some bookingId) now2 ?db1 = (CancelOk 0, ?db1)"
    using assms(3) by (simp add: cancel_POST_def transaction_def)
  have blocks: "\<forall>n > 0. bk_endUtc b = bk_startUtc b + int n * (30 * 60000) \<longrightarrow>
          ?req = map (\<lambda>i. bk_startUtc b + int i * (30 * 60000)) [0 ..< n]"
    using buildAtomicStarts_blocks [of _ "bk_startUtc b"] by simp
  from post1 find1 av tr blocks post2 show ?thesis by blast
qed

theorem cancel_pending_restores_missing_blocks_and_is_idempotent_witness:
  "cancel_POST (Some \<lparr>user_id = 9, user_email = ''s@test.com''\<rparr>) (Some 1) 5 db_pending_booking
     = (CancelOk 2, db_canceled_booking)
   \<and> cancel_POST (Some \<lparr>user_id = 9, user_email = ''s@test.com''\<rparr>) (Some 1) 6 db_canceled_booking
     = (CancelOk 0, db_canceled_booking)"
  using cancel_pending_restores_missing_blocks_and_is_idempotent
          [of 1 "\<lparr>user_id = 9, user_email = ''s@test.com''\<rparr>" db_pending_booking
              "hd (bookings db_pending_booking)" 5 6]
  by (simp add: db_pending_booking_def db_canceled_booking_def cancel_POST_def cancel_tx_def
      transaction_def matchingRows_def buildAtomicStarts_def missingStarts_def
      GRID_MINUTES_def MINUTE_MS_def Let_def upt_rec)

section \<open>Properties of the manual availability entry\<close>

lemma roundDownToGrid_eq: "roundDownToGrid dt = dt - dt mod 1800000"
proof -
  define q where "q = dt div 60000"
  have a: "dt div 3600000 = q div 60" by (simp add: q_def div_mult2_eq [symmetric])
  have b: "dt div 1800000 = q div 30" by (simp add: q_def div_mult2_eq [symmetric])
  have c: "(q mod 60) mod 30 = q mod 30" by (simp add: mod_mod_cancel)
  have e3: "q - q mod 30 = 30 * (q div 30)" by (rule minus_mod_eq_mult_div)
  have e4: "dt - dt mod 1800000 = 1800000 * (dt div 1800000)" by (rule minus_mod_eq_mult_div)
  have "roundDownToGrid dt = (dt div 3600000) * 3600000
          + ((dt div 60000) mod 60 - ((dt div 60000) mod 60) mod 30) * 60000"
    by (simp add: roundDownToGrid_def MINUTE_MS_def GRID_MINUTES_def Let_def)
  also have "\<dots> = (q div 60) * 3600000 + (q mod 60 - q mod 30) * 60000"
    by (simp only: a c flip: q_def)
  also have "\<dots> = 60000 * (q - q mod 30)"
  proof -
    define d where "d = q div 60"
    define m where "m = q mod 60"
    define r where "r = q mod 30"
    have q: "q = 60 * d + m" unfolding d_def m_def by simp
    have "d * 3600000 + (m - r) * 60000 = 60000 * (60 * d + m - r)" by (simp add: algebra_simps)
    then show ?thesis unfolding q [symmetric] unfolding d_def m_def r_def .
  qed
  also have "\<dots> = 60000 * (30 * (q div 30))" by (simp only: e3)
  also have "\<dots> = 1800000 * (dt div 1800000)" by (simp add: b)
  also have "\<dots> = dt - dt mod 1800000" by (simp only: e4)
  finally show ?thesis .
qed


lemma grid_slots_Suc:
  "grid_slots t (Suc n) = \<lparr>gs_startUtc = t, gs_endUtc = t + 1800000\<rparr> # grid_slots (t + 1800000) n"
proof -
  have "[0 ..< Suc n] = 0 # map Suc [0 ..< n]" by (simp add: upt_conv_Cons map_Suc_upt del: upt_Suc)
  then show ?thesis by (simp add: grid_slots_def comp_def algebra_simps del: upt_Suc)
qed

lemma split_loop_eq:
  "split_loop t endT out = out @ grid_slots t (nat ((endT - t) div 1800000))"
proof (induction t endT out rule: split_loop.induct)
  case (1 t endT out)
  show ?case
  proof (cases "t + 1800000 \<le> endT")
    case True
    then have "(endT - t) div 1800000 = (endT - (t + 1800000)) div 1800000 + 1" by simp
    moreover from True have "0 \<le> (endT - (t + 1800000)) div 1800000" by simp
    ultimately have n: "nat ((endT - t) div 1800000) = Suc (nat ((endT - (t + 1800000)) div 1800000))"
      by simp
    have "split_loop t endT out
          = split_loop (t + 1800000) endT (out @ [\<lparr>gs_startUtc = t, gs_endUtc = t + 1800000\<rparr>])"
      using True by (subst split_loop.simps) (simp add: GRID_MINUTES_def MINUTE_MS_def)
    also have "\<dots> = (out @ [\<lparr>gs_startUtc = t, gs_endUtc = t + 1800000\<rparr>])
                      @ grid_slots (t + 1800000) (nat ((endT - (t + 1800000)) div 1800000))"
      using True "1.IH" by (simp add: GRID_MINUTES_def MINUTE_MS_def)
    finally show ?thesis by (simp add: n grid_slots_Suc)
  next
    case False
    then have "(endT - t) div 1800000 \<le> 0" by simp
    then have "grid_slots t (nat ((endT - t) div 1800000)) = []" by (simp add: grid_slots_def)
    moreover have "split_loop t endT out = out"
      using False by (subst split_loop.simps) (simp add: GRID_MINUTES_def MINUTE_MS_def)
    ultimately show ?thesis by simp
  qed
qed

lemma splitIntoGridSlots_eq:
  "splitIntoGridSlots (At s) (At e) =
     (if e \<le> s then []
      else grid_slots (s - s mod 1800000)
             (nat ((e - e mod 60000 - (s - s mod 1800000)) div 1800000)))"
proof -
  have "(e div 60000) * 60000 = e - e mod 60000" by (simp add: minus_mod_eq_div_mult)
  then show ?thesis
    by (simp add: splitIntoGridSlots_def MINUTE_MS_def split_loop_eq roundDownToGrid_eq)
qed

lemma grid_slots_distinct: "distinct (map gs_startUtc (grid_slots t n))"
  by (simp add: grid_slots_def distinct_map comp_def inj_on_def)

lemma grid_slots_len: "s \<in> set (grid_slots t n) \<Longrightarrow> gs_endUtc s = gs_startUtc s + 1800000"
  by (auto simp: grid_slots_def)

lemma existing_empty_iff:
  "filter (\<lambda>r. av_teacherId r = teacherId \<and> av_startUtc r = a \<and> av_endUtc r = b) rows = []
   \<longleftrightarrow> (teacherId, a, b) \<notin> av_triple ` set rows"
  by (auto simp: filter_empty_conv av_triple_def)

lemma insert_slots_rows:
  "distinct slots \<Longrightarrow>
   \<exists>added. teacherAvailability (insert_slots teacherId now slots db) = teacherAvailability db @ added
     \<and> map av_triple added
         = map (\<lambda>s. (teacherId, gs_startUtc s, gs_endUtc s))
             (filter (\<lambda>s. (teacherId, gs_startUtc s, gs_endUtc s)
                            \<notin> av_triple ` set (teacherAvailability db)) slots)"
proof (induction slots arbitrary: db)
  case Nil
  then show ?case by simp
next
  case (Cons s slots)
  from Cons.prems have d: "distinct slots" and ns: "s \<notin> set slots" by simp_all
  show ?case
  proof (cases "(teacherId, gs_startUtc s, gs_endUtc s) \<in> av_triple ` set (teacherAvailability db)")
    case True
    then have eq: "insert_slots teacherId now (s # slots) db = insert_slots teacherId now slots db"
      by (simp add: existing_empty_iff)
    from Cons.IH [OF d, of db] True show ?thesis unfolding eq by simp
  next
    case False
    let ?row = "\<lparr>av_id = teacherAvailability_seq db, av_teacherId = teacherId,
                  av_startUtc = gs_startUtc s, av_endUtc = gs_endUtc s,
                  av_source = ''manual'', av_createdAt = now\<rparr>"
    let ?db = "db\<lparr>teacherAvailability := teacherAvailability db @ [?row],
                  teacherAvailability_seq := teacherAvailability_seq db + 1\<rparr>"
    from False have eq: "insert_slots teacherId now (s # slots) db = insert_slots teacherId now slots ?db"
      by (simp add: existing_empty_iff)
    from Cons.IH [OF d, of ?db] obtain added where
      a: "teacherAvailability (insert_slots teacherId now slots ?db) = teacherAvailability ?db @ added"
      and b: "map av_triple added
         = map (\<lambda>s. (teacherId, gs_startUtc s, gs_endUtc s))
             (filter (\<lambda>s. (teacherId, gs_startUtc s, gs_endUtc s)
                            \<notin> av_triple ` set (teacherAvailability ?db)) slots)"
      by blast
    have same: "filter (\<lambda>x. (teacherId, gs_startUtc x, gs_endUtc x)
                            \<notin> av_triple ` set (teacherAvailability ?db)) slots
              = filter (\<lambda>x. (teacherId, gs_startUtc x, gs_endUtc x)
                            \<notin> av_triple ` set (teacherAvailability db)) slots"
    proof (rule filter_cong [OF refl])
      fix x
      assume "x \<in> set slots"
      with ns have "x \<noteq> s" by blast
      then have "(gs_startUtc x, gs_endUtc x) \<noteq> (gs_startUtc s, gs_endUtc s)"
        by (cases x, cases s) simp
      then show "((teacherId, gs_startUtc x, gs_endUtc x) \<notin> av_triple ` set (teacherAvailability ?db))
               = ((teacherId, gs_startUtc x, gs_endUtc x) \<notin> av_triple ` set (teacherAvailability db))"
        by (auto simp: av_triple_def)
    qed
    have "teacherAvailability (insert_slots teacherId now (s # slots) db)
          = teacherAvailability db @ (?row # added)"
      unfolding eq using a by simp
    moreover have "map av_triple (?row # added)
         = map (\<lambda>s. (teacherId, gs_startUtc s, gs_endUtc s))
             (filter (\<lambda>s. (teacherId, gs_startUtc s, gs_endUtc s)
                            \<notin> av_triple ` set (teacherAvailability db)) (s # slots))"
    proof -
      have r: "av_triple ?row = (teacherId, gs_startUtc s, gs_endUtc s)" by (simp add: av_triple_def)
      from b have b': "map av_triple added
         = map (\<lambda>s. (teacherId, gs_startUtc s, gs_endUtc s))
             (filter (\<lambda>s. (teacherId, gs_startUtc s, gs_endUtc s)
                            \<notin> av_triple ` set (teacherAvailability db)) slots)"
        by (simp only: same)
      show ?thesis using False by (simp add: r b')
    qed
    ultimately show ?thesis by blast
  qed
qed




lemma grid_slots_distinct_slots: "distinct (grid_slots t n)"
  using grid_slots_distinct [of t n] by (simp add: distinct_map)

lemma splitIntoGridSlots_cases:
  "splitIntoGridSlots a b = [] \<or> (\<exists>t n. splitIntoGridSlots a b = grid_slots t n)"
proof (cases a)
  case (At s)
  show ?thesis
  proof (cases b)
    case (At e)
    with \<open>a = At s\<close> show ?thesis by (simp add: splitIntoGridSlots_eq) blast
  qed (simp_all add: \<open>a = At s\<close> splitIntoGridSlots_def)
qed (simp_all add: splitIntoGridSlots_def)

lemma splitIntoGridSlots_distinct: "distinct (splitIntoGridSlots a b)"
  using splitIntoGridSlots_cases [of a b] grid_slots_distinct_slots by auto

lemma splitIntoGridSlots_len:
  "sl \<in> set (splitIntoGridSlots a b) \<Longrightarrow> gs_endUtc sl = gs_startUtc sl + 1800000"
  using splitIntoGridSlots_cases [of a b] grid_slots_len by auto








section \<open>Uniqueness of the atomic blocks\<close>

text \<open>What both inserting operations do to the availability table.\<close>

lemma appended_blocks_unique:
  assumes rows: "teacherAvailability db1 = teacherAvailability db @ added"
    and tr: "map av_triple added = map (\<lambda>s. (T, s, s + 1800000)) starts"
    and ds: "distinct starts"
    and new: "\<forall>s \<in> set starts. (T, s, s + 1800000) \<notin> av_triple ` set (teacherAvailability db)"
  shows "(atomic_starts_unique db \<longrightarrow> atomic_starts_unique db1)
       \<and> ((\<forall>r \<in> set (teacherAvailability db). atomic_row r) \<longrightarrow>
            (\<forall>r \<in> set (teacherAvailability db1). atomic_row r))"
proof -
  have added_triple: "\<exists>s \<in> set starts. av_triple r = (T, s, s + 1800000)" if "r \<in> set added" for r
  proof -
    from that have "av_triple r \<in> set (map av_triple added)" by simp
    then show ?thesis unfolding tr by auto
  qed
  have added_atomic: "\<forall>r \<in> set added. atomic_row r"
    using added_triple by (fastforce simp: av_triple_def atomic_row_def)
  have keys: "map (\<lambda>r. (av_teacherId r, av_startUtc r)) added = map (\<lambda>s. (T, s)) starts"
  proof -
    have "map (\<lambda>r. (av_teacherId r, av_startUtc r)) added
          = map (\<lambda>(t, a, b). (t, a)) (map av_triple added)"
      by (simp add: av_triple_def comp_def)
    also have "\<dots> = map (\<lambda>s. (T, s)) starts" unfolding tr by (simp add: comp_def)
    finally show ?thesis .
  qed
  have dk: "distinct (map (\<lambda>r. (av_teacherId r, av_startUtc r)) added)"
    unfolding keys using ds by (simp add: distinct_map inj_on_def)
  have fresh: "(av_teacherId r, av_startUtc r) \<noteq> (av_teacherId r', av_startUtc r')"
    if r: "r \<in> set (teacherAvailability db)" "atomic_row r" and r': "r' \<in> set added" for r r'
  proof
    assume eq: "(av_teacherId r, av_startUtc r) = (av_teacherId r', av_startUtc r')"
    from added_triple [OF r'] obtain s where s: "s \<in> set starts" "av_triple r' = (T, s, s + 1800000)"
      by blast
    with eq r(2) have "av_triple r = (T, s, s + 1800000)"
      by (simp add: av_triple_def atomic_row_def)
    with r(1) have "(T, s, s + 1800000) \<in> av_triple ` set (teacherAvailability db)" by force
    with new s(1) show False by blast
  qed
  have f: "filter atomic_row (teacherAvailability db1)
           = filter atomic_row (teacherAvailability db) @ added"
    using added_atomic by (simp add: rows)
  have "atomic_starts_unique db1" if "atomic_starts_unique db"
    using that dk fresh by (fastforce simp: atomic_starts_unique_def f)
  moreover have "\<forall>r \<in> set (teacherAvailability db1). atomic_row r"
    if "\<forall>r \<in> set (teacherAvailability db). atomic_row r"
    using that added_atomic by (auto simp: rows)
  ultimately show ?thesis by blast
qed

lemma unchanged_blocks_unique:
  "teacherAvailability db1 = teacherAvailability db \<Longrightarrow>
   (atomic_starts_unique db \<longrightarrow> atomic_starts_unique db1)
   \<and> ((\<forall>r \<in> set (teacherAvailability db). atomic_row r) \<longrightarrow>
        (\<forall>r \<in> set (teacherAvailability db1). atomic_row r))"
  by (simp add: atomic_starts_unique_def)

lemma insert_slots_preserves:
  "(atomic_starts_unique db \<longrightarrow>
      atomic_starts_unique (insert_slots teacherId now (splitIntoGridSlots a b) db))
   \<and> ((\<forall>r \<in> set (teacherAvailability db). atomic_row r) \<longrightarrow>
        (\<forall>r \<in> set (teacherAvailability (insert_slots teacherId now (splitIntoGridSlots a b) db)).
            atomic_row r))"
proof -
  let ?slots = "splitIntoGridSlots a b"
  let ?new = "filter (\<lambda>sl. (teacherId, gs_startUtc sl, gs_endUtc sl)
                            \<notin> av_triple ` set (teacherAvailability db)) ?slots"
  have d: "distinct ?slots" by (rule splitIntoGridSlots_distinct)
  from insert_slots_rows [OF d, of teacherId now db] obtain added where
    r: "teacherAvailability (insert_slots teacherId now ?slots db) = teacherAvailability db @ added"
    and t: "map av_triple added = map (\<lambda>sl. (teacherId, gs_startUtc sl, gs_endUtc sl)) ?new"
    by blast
  have len: "\<forall>sl \<in> set ?new. gs_endUtc sl = gs_startUtc sl + 1800000"
    using splitIntoGridSlots_len by auto
  then have t': "map av_triple added
                 = map (\<lambda>s. (teacherId, s, s + 1800000)) (map gs_startUtc ?new)"
    unfolding t by (simp add: comp_def)
  have inj: "inj_on gs_startUtc (set ?slots)"
  proof (rule inj_onI)
    fix x y
    assume x: "x \<in> set ?slots" and y: "y \<in> set ?slots" and eq: "gs_startUtc x = gs_startUtc y"
    from splitIntoGridSlots_len [OF x] splitIntoGridSlots_len [OF y] eq
    have "gs_endUtc x = gs_endUtc y" by simp
    with eq show "x = y" by (intro GridSlot.equality) simp_all
  qed
  have ds: "distinct (map gs_startUtc ?new)"
    using d inj by (simp add: distinct_map inj_on_def)
  have new: "\<forall>s \<in> set (map gs_startUtc ?new).
               (teacherId, s, s + 1800000) \<notin> av_triple ` set (teacherAvailability db)"
    using len by auto
  show ?thesis by (rule appended_blocks_unique [OF r t' ds new])
qed

lemma availability_POST_state:
  "snd (availability_POST userOpt teacherIdParam startUtc endUtc now db) = db
   \<or> (\<exists>teacherId. snd (availability_POST userOpt teacherIdParam startUtc endUtc now db)
         = insert_slots teacherId now (splitIntoGridSlots startUtc endUtc) db)"
  by (auto simp: availability_POST_def Let_def split: option.splits)


lemma buildAtomicStarts_distinct: "distinct (buildAtomicStarts s e)"
  by (simp add: buildAtomicStarts_def Let_def distinct_map inj_on_def GRID_MINUTES_def MINUTE_MS_def)

lemma missingStarts_distinct: "distinct required \<Longrightarrow> distinct (missingStarts db T required)"
  by (simp add: missingStarts_def)

lemma missingStarts_fresh:
  "s \<in> set (missingStarts db T required) \<Longrightarrow>
   (T, s, s + 1800000) \<notin> av_triple ` set (teacherAvailability db)"
  by (auto simp: missingStarts_def list_ex_iff av_triple_def)

lemma cancel_tx_state:
  "teacherAvailability (snd (cancel_tx user bookingId now db)) = teacherAvailability db
   \<or> (\<exists>(b::Booking) dbc. teacherAvailability dbc = teacherAvailability db
        \<and> snd (cancel_tx user bookingId now db)
          = insert_availability
              (map (\<lambda>s. \<lparr>na_teacherId = bk_teacherId b, na_startUtc = s,
                         na_endUtc = s + GRID_MINUTES * MINUTE_MS,
                         na_source = ''manual'', na_createdAt = now\<rparr>)
                 (missingStarts db (bk_teacherId b)
                    (buildAtomicStarts (bk_startUtc b) (bk_endUtc b))))
              dbc)"
proof (cases "find (\<lambda>x. bk_id x = bookingId \<and> bk_studentId x = user_id user) (bookings db)")
  case None
  then show ?thesis by (simp add: cancel_tx_def)
next
  case (Some b)
  let ?dbc = "if bk_status b = ''canceled'' then db
              else db\<lparr>bookings := map (\<lambda>x. if bk_id x = bk_id b
                                             then x\<lparr>bk_status := ''canceled'', bk_updatedAt := now\<rparr>
                                             else x) (bookings db)\<rparr>"
  have av: "teacherAvailability ?dbc = teacherAvailability db" by simp
  have ms: "missingStarts ?dbc T req = missingStarts db T req" for T req
    by (simp add: missingStarts_def)
  have mr: "matchingRows ?dbc T req = matchingRows db T req" for T req
    by (simp add: matchingRows_def)
  show ?thesis
  proof (cases "bk_status b = ''paid'' \<or> bk_status b = ''refunded''")
    case True
    with Some show ?thesis by (simp add: cancel_tx_def)
  next
    case False
    show ?thesis
    proof (cases "buildAtomicStarts (bk_startUtc b) (bk_endUtc b) = []")
      case True
      with Some False have "snd (cancel_tx user bookingId now db) = ?dbc"
        by (simp add: cancel_tx_def Let_def)
      then show ?thesis by (simp only: av) simp
    next
      case nonempty: False
      have "filter (\<lambda>d. d \<notin> set (map av_startUtc
                (matchingRows ?dbc (bk_teacherId b) (buildAtomicStarts (bk_startUtc b) (bk_endUtc b)))))
              (buildAtomicStarts (bk_startUtc b) (bk_endUtc b))
            = missingStarts db (bk_teacherId b) (buildAtomicStarts (bk_startUtc b) (bk_endUtc b))"
        by (simp only: missing_filter ms)
      with Some False nonempty
      have e: "snd (cancel_tx user bookingId now db)
          = insert_availability
              (map (\<lambda>s. \<lparr>na_teacherId = bk_teacherId b, na_startUtc = s,
                         na_endUtc = s + GRID_MINUTES * MINUTE_MS,
                         na_source = ''manual'', na_createdAt = now\<rparr>)
                 (missingStarts db (bk_teacherId b)
                    (buildAtomicStarts (bk_startUtc b) (bk_endUtc b))))
              ?dbc"
        by (simp add: cancel_tx_def Let_def del: set_map)
      show ?thesis
        by (rule disjI2, rule exI [of _ b], rule exI [of _ ?dbc], rule conjI [OF av e])
    qed
  qed
qed

lemma cancel_tx_no_throw: "\<exists>r. fst (cancel_tx user bookingId now db) = Inr r"
  by (simp add: cancel_tx_def Let_def split: option.splits)

lemma cancel_POST_state:
  "snd (cancel_POST userOpt bookingIdOpt now db) = db
   \<or> (\<exists>user bookingId. snd (cancel_POST userOpt bookingIdOpt now db)
                          = snd (cancel_tx user bookingId now db))"
proof (cases userOpt)
  case None
  then show ?thesis by (simp add: cancel_POST_def)
next
  case (Some user)
  note user = this
  show ?thesis
  proof (cases bookingIdOpt)
    case None
    with user show ?thesis by (simp add: cancel_POST_def)
  next
    case (Some bookingId)
    show ?thesis
    proof (cases "user_id user = 0")
      case True
      with user show ?thesis by (simp add: cancel_POST_def)
    next
      case False
      obtain r d where tx: "cancel_tx user bookingId now db = (Inr r, d)"
        using cancel_tx_no_throw [of user bookingId now db]
        by (cases "cancel_tx user bookingId now db") auto
      have "snd (cancel_POST userOpt bookingIdOpt now db) = d"
        using user Some False
        by (cases r) (simp_all add: cancel_POST_def transaction_def tx)
      then have "snd (cancel_POST userOpt bookingIdOpt now db)
                 = snd (cancel_tx user bookingId now db)"
        by (simp add: tx)
      then show ?thesis by blast
    qed
  qed
qed

lemma cancel_tx_preserves:
  "(atomic_starts_unique db \<longrightarrow> atomic_starts_unique (snd (cancel_tx user bookingId now db)))
   \<and> ((\<forall>r \<in> set (teacherAvailability db). atomic_row r) \<longrightarrow>
        (\<forall>r \<in> set (teacherAvailability (snd (cancel_tx user bookingId now db))). atomic_row r))"
  using cancel_tx_state [of user bookingId now db]
proof
  assume "teacherAvailability (snd (cancel_tx user bookingId now db)) = teacherAvailability db"
  then show ?thesis by (rule unchanged_blocks_unique)
next
  assume "\<exists>(b::Booking) dbc. teacherAvailability dbc = teacherAvailability db
        \<and> snd (cancel_tx user bookingId now db)
          = insert_availability
              (map (\<lambda>s. \<lparr>na_teacherId = bk_teacherId b, na_startUtc = s,
                         na_endUtc = s + GRID_MINUTES * MINUTE_MS,
                         na_source = ''manual'', na_createdAt = now\<rparr>)
                 (missingStarts db (bk_teacherId b)
                    (buildAtomicStarts (bk_startUtc b) (bk_endUtc b))))
              dbc"
  then obtain b :: Booking and dbc where dbc: "teacherAvailability dbc = teacherAvailability db"
    and eq: "snd (cancel_tx user bookingId now db)
          = insert_availability
              (map (\<lambda>s. \<lparr>na_teacherId = bk_teacherId b, na_startUtc = s,
                         na_endUtc = s + GRID_MINUTES * MINUTE_MS,
                         na_source = ''manual'', na_createdAt = now\<rparr>)
                 (missingStarts db (bk_teacherId b)
                    (buildAtomicStarts (bk_startUtc b) (bk_endUtc b))))
              dbc"
    by blast
  let ?starts = "missingStarts db (bk_teacherId b) (buildAtomicStarts (bk_startUtc b) (bk_endUtc b))"
  let ?vs = "map (\<lambda>s. \<lparr>na_teacherId = bk_teacherId b, na_startUtc = s,
                         na_endUtc = s + GRID_MINUTES * MINUTE_MS,
                         na_source = ''manual'', na_createdAt = now\<rparr>) ?starts"
  from insert_availability_rows [of ?vs dbc] obtain added where
    r0: "teacherAvailability (insert_availability ?vs dbc) = teacherAvailability dbc @ added"
    and t0: "map (\<lambda>r. (av_teacherId r, av_startUtc r, av_endUtc r)) added
             = map (\<lambda>v. (na_teacherId v, na_startUtc v, na_endUtc v)) ?vs"
    by blast
  have r: "teacherAvailability (snd (cancel_tx user bookingId now db)) = teacherAvailability db @ added"
    using r0 by (simp only: eq dbc)
  have "map av_triple added = map (\<lambda>r. (av_teacherId r, av_startUtc r, av_endUtc r)) added"
    by (simp add: av_triple_def)
  also note t0
  also have "map (\<lambda>v. (na_teacherId v, na_startUtc v, na_endUtc v)) ?vs
             = map (\<lambda>s. (bk_teacherId b, s, s + 1800000)) ?starts"
    by (simp add: comp_def GRID_MINUTES_def MINUTE_MS_def)
  finally have t: "map av_triple added = map (\<lambda>s. (bk_teacherId b, s, s + 1800000)) ?starts" .
  have ds: "distinct ?starts" by (rule missingStarts_distinct) (rule buildAtomicStarts_distinct)
  have new: "\<forall>s \<in> set ?starts.
               (bk_teacherId b, s, s + 1800000) \<notin> av_triple ` set (teacherAvailability db)"
    using missingStarts_fresh by blast
  show ?thesis by (rule appended_blocks_unique [OF r t ds new])
qed

text \<open>
  C10. The manual availability entry and the cancellation, on any request, preserve the
  uniqueness invariant of the atomic blocks: if no two 30-minute availability rows of the
  same teacher start at the same instant before the operation, none do after it. Both
  insert 30-minute rows only, so a table that holds nothing but atomic blocks stays so,
  and then no two of its rows at all share teacher and start.
\<close>

theorem availability_inserts_preserve_unique_atomic_starts:
  "(atomic_starts_unique db \<longrightarrow>
       atomic_starts_unique (snd (availability_POST userOpt teacherIdParam startUtc endUtc now db))
     \<and> atomic_starts_unique (snd (cancel_POST userOpt bookingIdOpt now db)))
   \<and> ((\<forall>r \<in> set (teacherAvailability db). atomic_row r)
        \<and> distinct (map (\<lambda>r. (av_teacherId r, av_startUtc r)) (teacherAvailability db)) \<longrightarrow>
       (\<forall>r \<in> set (teacherAvailability
                    (snd (availability_POST userOpt teacherIdParam startUtc endUtc now db))).
            atomic_row r)
     \<and> distinct (map (\<lambda>r. (av_teacherId r, av_startUtc r))
          (teacherAvailability
             (snd (availability_POST userOpt teacherIdParam startUtc endUtc now db))))
     \<and> (\<forall>r \<in> set (teacherAvailability (snd (cancel_POST userOpt bookingIdOpt now db))).
            atomic_row r)
     \<and> distinct (map (\<lambda>r. (av_teacherId r, av_startUtc r))
          (teacherAvailability (snd (cancel_POST userOpt bookingIdOpt now db)))))"
proof -
  let ?p = "snd (availability_POST userOpt teacherIdParam startUtc endUtc now db)"
  let ?c = "snd (cancel_POST userOpt bookingIdOpt now db)"
  have all_atomic: "atomic_starts_unique d
                    = distinct (map (\<lambda>r. (av_teacherId r, av_startUtc r)) (teacherAvailability d))"
    if "\<forall>r \<in> set (teacherAvailability d). atomic_row r" for d
    using that by (simp add: atomic_starts_unique_def)
  have p: "(atomic_starts_unique db \<longrightarrow> atomic_starts_unique ?p)
         \<and> ((\<forall>r \<in> set (teacherAvailability db). atomic_row r) \<longrightarrow>
              (\<forall>r \<in> set (teacherAvailability ?p). atomic_row r))"
    using availability_POST_state [of userOpt teacherIdParam startUtc endUtc now db]
      insert_slots_preserves [of db _ now startUtc endUtc]
    by (elim disjE exE) simp_all
  have c: "(atomic_starts_unique db \<longrightarrow> atomic_starts_unique ?c)
         \<and> ((\<forall>r \<in> set (teacherAvailability db). atomic_row r) \<longrightarrow>
              (\<forall>r \<in> set (teacherAvailability ?c). atomic_row r))"
    using cancel_POST_state [of userOpt bookingIdOpt now db]
      cancel_tx_preserves [of db _ _ now]
    by (elim disjE exE) simp_all
  show ?thesis
  proof (intro conjI impI)
    assume "atomic_starts_unique db"
    with p show "atomic_starts_unique ?p" by blast
  next
    assume "atomic_starts_unique db"
    with c show "atomic_starts_unique ?c" by blast
  next
    assume a: "(\<forall>r \<in> set (teacherAvailability db). atomic_row r)
        \<and> distinct (map (\<lambda>r. (av_teacherId r, av_startUtc r)) (teacherAvailability db))"
    with p show "\<forall>r \<in> set (teacherAvailability ?p). atomic_row r" by blast
  next
    assume a: "(\<forall>r \<in> set (teacherAvailability db). atomic_row r)
        \<and> distinct (map (\<lambda>r. (av_teacherId r, av_startUtc r)) (teacherAvailability db))"
    then have "atomic_starts_unique db" by (simp add: all_atomic)
    with p a have "atomic_starts_unique ?p" and "\<forall>r \<in> set (teacherAvailability ?p). atomic_row r"
      by blast+
    then show "distinct (map (\<lambda>r. (av_teacherId r, av_startUtc r)) (teacherAvailability ?p))"
      by (simp add: all_atomic)
  next
    assume a: "(\<forall>r \<in> set (teacherAvailability db). atomic_row r)
        \<and> distinct (map (\<lambda>r. (av_teacherId r, av_startUtc r)) (teacherAvailability db))"
    with c show "\<forall>r \<in> set (teacherAvailability ?c). atomic_row r" by blast
  next
    assume a: "(\<forall>r \<in> set (teacherAvailability db). atomic_row r)
        \<and> distinct (map (\<lambda>r. (av_teacherId r, av_startUtc r)) (teacherAvailability db))"
    then have "atomic_starts_unique db" by (simp add: all_atomic)
    with c a have "atomic_starts_unique ?c" and "\<forall>r \<in> set (teacherAvailability ?c). atomic_row r"
      by blast+
    then show "distinct (map (\<lambda>r. (av_teacherId r, av_startUtc r)) (teacherAvailability ?c))"
      by (simp add: all_atomic)
  qed
qed

theorem availability_inserts_preserve_unique_atomic_starts_witness:
  "atomic_starts_unique db_one_block
   \<and> snd (availability_POST (Some \<lparr>user_id = 7, user_email = ''t@test.com''\<rparr>) (Some 7)
            (At 100) (At 3600000) 5 db_one_block) = db_two_blocks
   \<and> atomic_starts_unique db_two_blocks
   \<and> atomic_starts_unique db_pending_booking
   \<and> snd (cancel_POST (Some \<lparr>user_id = 9, user_email = ''s@test.com''\<rparr>) (Some 1) 5
            db_pending_booking) = db_canceled_booking
   \<and> atomic_starts_unique db_canceled_booking"
  using availability_inserts_preserve_unique_atomic_starts
          [of db_one_block "Some \<lparr>user_id = 7, user_email = ''t@test.com''\<rparr>" "Some 7"
              "At 100" "At 3600000" 5 "Some 1"]
        availability_inserts_preserve_unique_atomic_starts
          [of db_pending_booking "Some \<lparr>user_id = 9, user_email = ''s@test.com''\<rparr>" "Some 7"
              "At 100" "At 3600000" 5 "Some 1"]
  by (simp add: db_one_block_def db_two_blocks_def db_pending_booking_def db_canceled_booking_def
      atomic_starts_unique_def atomic_row_def availability_POST_def splitIntoGridSlots_def
      roundDownToGrid_def split_loop.simps cancel_POST_def cancel_tx_def transaction_def
      matchingRows_def buildAtomicStarts_def GRID_MINUTES_def MINUTE_MS_def Let_def upt_rec)

text \<open>
  The duplicate check of the manual entry compares start and end. Beside a row of another
  length, which no operation here inserts but the schema admits, it adds a 30-minute row
  with the same start: the invariant above is about the 30-minute rows, and about all rows
  only in a table that holds nothing else.
\<close>

lemma manual_entry_beside_longer_row:
  "map (\<lambda>r. (av_teacherId r, av_startUtc r, av_endUtc r))
     (teacherAvailability
        (snd (availability_POST (Some \<lparr>user_id = 7, user_email = ''t@test.com''\<rparr>) (Some 7)
                (At 0) (At 1800000) 5 db_hour_row)))
   = [(7, 0, 3600000), (7, 0, 1800000)]"
  by (simp add: db_hour_row_def availability_POST_def splitIntoGridSlots_def
      roundDownToGrid_def split_loop.simps GRID_MINUTES_def MINUTE_MS_def Let_def)

section \<open>Properties of the payment confirmation\<close>

lemma update_unknown_booking:
  assumes "\<forall>b \<in> set (bookings db). bk_id b \<noteq> i" and "- 2147483648 \<le> i" and "i \<le> 2147483647"
  shows "update_booking_paid (Num i) sessionId paymentIntentId now db = Inr db"
proof -
  have "map (\<lambda>b. if bk_id b = i
                 then b\<lparr>bk_status := ''paid'', bk_stripeCheckoutSessionId := Some sessionId,
                        bk_stripePaymentIntentId := paymentIntentId, bk_updatedAt := now\<rparr>
                 else b) (bookings db) = bookings db"
    using assms(1) by (induction "bookings db") (auto simp: map_idI)
  then show ?thesis using assms(2,3) by (simp add: update_booking_paid_def)
qed

text \<open>
  The part of C8 that the handler does: a confirmation whose booking reference is absent or
  empty, or is a number in the range of the id column that no booking carries, is
  acknowledged and changes nothing.
\<close>

lemma webhook_absent_or_unknown_reference_acknowledged:
  assumes "sig \<noteq> None" and "sig \<noteq> Some []" and "secret \<noteq> None" and "secret \<noteq> Some []"
    and "ev_type event = ''checkout.session.completed''"
    and "cs_bookingId (ev_session event) = None \<or> cs_bookingId (ev_session event) = Some []
         \<or> (\<exists>ref i. cs_bookingId (ev_session event) = Some ref \<and> Number ref = Num i
                \<and> - 2147483648 \<le> i \<and> i \<le> 2147483647
                \<and> (\<forall>b \<in> set (bookings db). bk_id b \<noteq> i))"
  shows "webhook_POST sig secret (Event event) Number now db = (WebhookNote ''No bookingId in metadata'', db)
       \<or> webhook_POST sig secret (Event event) Number now db = (WebhookReceived, db)"
  using assms(6)
proof (elim disjE exE conjE)
  assume "cs_bookingId (ev_session event) = None"
  then show ?thesis using assms(1-5) by (simp add: webhook_POST_def Let_def)
next
  assume "cs_bookingId (ev_session event) = Some []"
  then show ?thesis using assms(1-5) by (simp add: webhook_POST_def Let_def)
next
  fix ref i
  assume r: "cs_bookingId (ev_session event) = Some ref" and n: "Number ref = Num i"
    and lo: "- 2147483648 \<le> i" and hi: "i \<le> 2147483647"
    and un: "\<forall>b \<in> set (bookings db). bk_id b \<noteq> i"
  from update_unknown_booking [OF un lo hi]
  show ?thesis using assms(1-5) r n by (cases "ref = []") (simp_all add: webhook_POST_def Let_def)
qed

text \<open>
  C8 at a reference that is not a number. For the event
  \<^verbatim>\<open>checkout.session.completed\<close> with \<^verbatim>\<open>metadata.bookingId = "abc"\<close> the handler passes
  \<^verbatim>\<open>Number("abc")\<close>, which is \<open>NaN\<close>, to the update; the query is rejected, the handler
  catches the error and answers with status 500. No booking is changed and nothing is
  thrown, but the response is not a success.
\<close>

theorem webhook_unparsable_booking_reference_answers_500:
  assumes "sig \<noteq> None" and "sig \<noteq> Some []" and "secret \<noteq> None" and "secret \<noteq> Some []"
    and "Number ''abc'' = NaN"
  shows "webhook_POST sig secret
           (Event \<lparr>ev_type = ''checkout.session.completed'',
                   ev_session = \<lparr>cs_id = sessionId, cs_bookingId = Some ''abc'',
                                 cs_payment_intent = paymentIntent\<rparr>\<rparr>)
           Number now db
         = (WebhookError 500 ''invalid input syntax for type integer: NaN'', db)"
  using assms by (simp add: webhook_POST_def update_booking_paid_def Let_def)

theorem webhook_unparsable_booking_reference_answers_500_witness:
  "webhook_POST (Some ''sig_dummy'') (Some ''whsec_test_dummy'')
     (Event \<lparr>ev_type = ''checkout.session.completed'',
             ev_session = \<lparr>cs_id = ''cs_test_1'', cs_bookingId = Some ''abc'',
                           cs_payment_intent = None\<rparr>\<rparr>)
     (\<lambda>ref. NaN) 5 db_pending_booking
   = (WebhookError 500 ''invalid input syntax for type integer: NaN'', db_pending_booking)"
  using webhook_unparsable_booking_reference_answers_500
          [of "Some ''sig_dummy''" "Some ''whsec_test_dummy''" "\<lambda>ref. NaN" "''cs_test_1''" None 5
              db_pending_booking]
  by simp

end
